theory Spec2Isabelle
  imports Main "HOL-Library.Word" "HOL-Library.Sublist"
begin

section \<open>SLADE archive manager: data model\<close>

text \<open>
  The development follows \<^verbatim>\<open>src/Archive/ArchiveManager.cpp\<close>. The classes
  \<^verbatim>\<open>Archive\<close>, \<^verbatim>\<open>ArchiveEntry\<close> and \<^verbatim>\<open>ArchiveDir\<close> are declared in other
  files; the manager only talks to them through accessors, so an object is a pointer
  (a natural number naming the object, never reused) and the accessors are functions
  of the object store. A nullable pointer is an \<open>option\<close>.
\<close>

type_synonym archive_ptr = nat
type_synonym entry_ptr = nat
type_synonym dir_ptr = nat

text \<open>\<^verbatim>\<open>Archive::SearchOptions\<close> is handed to the codec unchanged.\<close>

type_synonym SearchOptions = string

text \<open>
  The object store: what each accessor the manager calls returns.
  \<open>a_allEntries\<close> is \<^verbatim>\<open>archive->rootDir()->allEntries()\<close>, \<open>e_live\<close> says whether
  a \<^verbatim>\<open>weak_ptr<ArchiveEntry>\<close> to the entry still locks, \<open>e_type\<close> is the id of the
  entry's type, \<open>None\<close> for \<^verbatim>\<open>EntryType::unknownType()\<close>.
\<close>

record Objects =
  a_filename :: "archive_ptr \<Rightarrow> string"
  a_formatId :: "archive_ptr \<Rightarrow> string"
  a_parentEntry :: "archive_ptr \<Rightarrow> entry_ptr option"
  a_rootDir :: "archive_ptr \<Rightarrow> dir_ptr option"
  a_allEntries :: "archive_ptr \<Rightarrow> entry_ptr list"
  a_entry :: "archive_ptr \<Rightarrow> string \<Rightarrow> entry_ptr option"
  a_findLast :: "archive_ptr \<Rightarrow> SearchOptions \<Rightarrow> entry_ptr option"
  a_findAll :: "archive_ptr \<Rightarrow> SearchOptions \<Rightarrow> entry_ptr list"
  e_parent :: "entry_ptr \<Rightarrow> archive_ptr option"
  e_parentDir :: "entry_ptr \<Rightarrow> dir_ptr option"
  e_type :: "entry_ptr \<Rightarrow> string option"
  e_name :: "entry_ptr \<Rightarrow> string"
  e_data :: "entry_ptr \<Rightarrow> nat list"
  e_live :: "entry_ptr \<Rightarrow> bool"
  d_parent :: "dir_ptr \<Rightarrow> dir_ptr option"
  d_archive :: "dir_ptr \<Rightarrow> archive_ptr option"
  d_dirEntry :: "dir_ptr \<Rightarrow> entry_ptr option"

text \<open>
  \<^verbatim>\<open>struct OpenArchive\<close>: the shared pointer to the archive (never null:
  \<^verbatim>\<open>addArchive\<close> is the only place that pushes a record and it checks the pointer),
  the resource flag and the weak pointers to the archives opened from its entries.
  A weak pointer to an archive is only ever locked to be looked up in the registry or
  compared with a registered archive; a registered archive is alive, so the weak
  pointer is modelled by the archive it names, and an expired one names an archive
  that no record holds.
\<close>

record OpenArchive =
  archive :: archive_ptr
  resource :: bool
  open_children :: "archive_ptr list"

text \<open>The calls \<^verbatim>\<open>App::resources()\<close> (the Resource Index) receives, in order.\<close>

datatype res_call = ResAddArchive archive_ptr | ResRemoveArchive archive_ptr

text \<open>An announced event: its name and the four bytes of its \<^verbatim>\<open>MemChunk\<close>, if any.\<close>

type_synonym event = "string \<times> 32 word option"

text \<open>A row of the table \<^verbatim>\<open>archive_file\<close>.\<close>

record archive_file_row =
  af_path :: string
  af_size :: nat
  af_md5 :: string
  af_format_id :: string
  af_last_opened :: int
  af_last_modified :: int

text \<open>
  The manager's members (\<open>open_archives\<close>, \<open>bookmarks\<close>, \<open>base_resource_archive\<close>), the
  CVAR \<open>base_resource\<close>, \<^verbatim>\<open>Global::error\<close>, and what its collaborators have received:
  the Resource Index's calls, the archives listened to, the announced events and the
  two database tables. A bookmark is a \<^verbatim>\<open>weak_ptr<ArchiveEntry>\<close>; \<open>None\<close> is the
  empty weak pointer.
\<close>

record State =
  open_archives :: "OpenArchive list"
  bookmarks :: "entry_ptr option list"
  base_resource_archive :: "archive_ptr option"
  base_resource :: int
  global_error :: string
  resources_calls :: "res_call list"
  listening :: "archive_ptr list"
  announced :: "event list"
  archive_file :: "archive_file_row list"
  base_resource_path :: "(nat \<times> string) list"
  objs :: Objects

text \<open>The archive formats \<^verbatim>\<open>openArchive\<close> knows, one per codec class.\<close>

datatype format =
  Wad | Zip | Res | Dat | Lib | Pak | BSP | Grp | Rff | Gob | Lfd | Hog | ADat
  | Wad2 | WadJ | Wolf | GZip | BZip2 | Tar | Disk | Pod | ChasmBin | SiN | Dir

text \<open>
  What the manager asks of the world outside it: the CVAR \<open>auto_open_wads_root\<close>,
  the file system, the codecs' recognisers (\<^verbatim>\<open>isWadArchive\<close>, ...), \<^verbatim>\<open>open\<close> and
  \<^verbatim>\<open>close\<close>, \<^verbatim>\<open>EntryType::detectEntryType\<close>, \<^verbatim>\<open>StrUtil::endsWithCI\<close>, the clock
  and the database handles. A codec's \<open>open\<close> returns the new archive object and the
  store that holds it, or \<open>None\<close> when it fails.
\<close>

record Env =
  auto_open_wads_root :: bool
  dirExists :: "string \<Rightarrow> bool"
  isArchiveFile :: "format \<Rightarrow> string \<Rightarrow> bool"
  isArchiveData :: "format \<Rightarrow> nat list \<Rightarrow> bool"
  endsWithCI :: "string \<Rightarrow> string \<Rightarrow> bool"
  openFile :: "format \<Rightarrow> string \<Rightarrow> Objects \<Rightarrow> (archive_ptr \<times> Objects) option"
  openEntry :: "format \<Rightarrow> entry_ptr \<Rightarrow> Objects \<Rightarrow> (archive_ptr \<times> Objects) option"
  closeObj :: "archive_ptr \<Rightarrow> Objects \<Rightarrow> Objects"
  detectEntryType :: "entry_ptr \<Rightarrow> Objects \<Rightarrow> Objects"
  fileSize :: "string \<Rightarrow> nat"
  fileMD5 :: "string \<Rightarrow> string"
  fileModifiedTime :: "string \<Rightarrow> int"
  now :: int
  cachedQuery :: "string \<Rightarrow> bool"
  connectionRO :: bool

text \<open>
  A call either returns, or runs out of the fuel that bounds its recursion, or indexes
  \<open>open_archives\<close> out of range or dereferences a null pointer (undefined in C++).
\<close>

datatype fault = OutOfFuel | OutOfRange | NullDeref

section \<open>The registry\<close>

text \<open>\<^verbatim>\<open>archiveIndex\<close>: the first position holding the archive, or \<open>-1\<close>.\<close>

fun archiveIndex_from :: "int \<Rightarrow> OpenArchive list \<Rightarrow> archive_ptr option \<Rightarrow> int" where
  "archiveIndex_from a [] p = - 1"
| "archiveIndex_from a (oa # rest) p =
     (if Some (archive oa) = p then a else archiveIndex_from (a + 1) rest p)"

definition archiveIndex :: "State \<Rightarrow> archive_ptr option \<Rightarrow> int" where
  "archiveIndex s p = archiveIndex_from 0 (open_archives s) p"

text \<open>\<^verbatim>\<open>getArchive(string_view filename)\<close>: the first archive with that file name.\<close>

fun getArchive_loop :: "Objects \<Rightarrow> OpenArchive list \<Rightarrow> string \<Rightarrow> archive_ptr option" where
  "getArchive_loop h [] fn = None"
| "getArchive_loop h (oa # rest) fn =
     (if a_filename h (archive oa) = fn then Some (archive oa) else getArchive_loop h rest fn)"

definition getArchive :: "State \<Rightarrow> string \<Rightarrow> archive_ptr option" where
  "getArchive s fn = getArchive_loop (objs s) (open_archives s) fn"

definition announce :: "string \<Rightarrow> 32 word option \<Rightarrow> State \<Rightarrow> State" where
  "announce name mc s = s\<lparr>announced := announced s @ [(name, mc)]\<rparr>"

definition resources_addArchive :: "archive_ptr \<Rightarrow> State \<Rightarrow> State" where
  "resources_addArchive a s = s\<lparr>resources_calls := resources_calls s @ [ResAddArchive a]\<rparr>"

definition resources_removeArchive :: "archive_ptr \<Rightarrow> State \<Rightarrow> State" where
  "resources_removeArchive a s =
     s\<lparr>resources_calls := resources_calls s @ [ResRemoveArchive a]\<rparr>"

text \<open>\<^verbatim>\<open>archiveIsResource\<close> and \<^verbatim>\<open>setArchiveResource\<close>.\<close>

definition archiveIsResource :: "State \<Rightarrow> archive_ptr option \<Rightarrow> bool" where
  "archiveIsResource s p =
     (let index = archiveIndex s p in
      if index < 0 then False else resource (open_archives s ! nat index))"

definition setArchiveResource :: "archive_ptr option \<Rightarrow> bool \<Rightarrow> State \<Rightarrow> State" where
  "setArchiveResource p res s =
     (let index = archiveIndex s p in
      if index \<ge> 0 then
        (let was_resource = resource (open_archives s ! nat index);
             s1 = s\<lparr>open_archives :=
                     (open_archives s)[nat index := (open_archives s ! nat index)\<lparr>resource := res\<rparr>]\<rparr>
         in case p of
              None \<Rightarrow> s1
            | Some a \<Rightarrow>
                if res \<and> \<not> was_resource then resources_addArchive a s1
                else if \<not> res \<and> was_resource then resources_removeArchive a s1
                else s1)
      else s)"

section \<open>Resource lookup\<close>

text \<open>\<^verbatim>\<open>getResourceEntry\<close>: open archives first, the base resource archive last.\<close>

fun getResourceEntry_loop ::
  "Objects \<Rightarrow> string \<Rightarrow> archive_ptr option \<Rightarrow> OpenArchive list \<Rightarrow> entry_ptr option" where
  "getResourceEntry_loop h name ignore [] = None"
| "getResourceEntry_loop h name ignore (oa # rest) =
     (if \<not> resource oa then getResourceEntry_loop h name ignore rest
      else if Some (archive oa) = ignore then getResourceEntry_loop h name ignore rest
      else (case a_entry h (archive oa) name of
              Some e \<Rightarrow> Some e
            | None \<Rightarrow> getResourceEntry_loop h name ignore rest))"

definition getResourceEntry :: "State \<Rightarrow> string \<Rightarrow> archive_ptr option \<Rightarrow> entry_ptr option" where
  "getResourceEntry s name ignore =
     (case getResourceEntry_loop (objs s) name ignore (open_archives s) of
        Some e \<Rightarrow> Some e
      | None \<Rightarrow>
          (case base_resource_archive s of
             Some b \<Rightarrow> a_entry (objs s) b name
           | None \<Rightarrow> None))"

text \<open>\<^verbatim>\<open>findResourceEntry\<close>: the same walk with \<^verbatim>\<open>findLast\<close>.\<close>

fun findResourceEntry_loop ::
  "Objects \<Rightarrow> SearchOptions \<Rightarrow> archive_ptr option \<Rightarrow> OpenArchive list \<Rightarrow> entry_ptr option" where
  "findResourceEntry_loop h opts ignore [] = None"
| "findResourceEntry_loop h opts ignore (oa # rest) =
     (if \<not> resource oa then findResourceEntry_loop h opts ignore rest
      else if Some (archive oa) = ignore then findResourceEntry_loop h opts ignore rest
      else (case a_findLast h (archive oa) opts of
              Some e \<Rightarrow> Some e
            | None \<Rightarrow> findResourceEntry_loop h opts ignore rest))"

definition findResourceEntry ::
  "State \<Rightarrow> SearchOptions \<Rightarrow> archive_ptr option \<Rightarrow> entry_ptr option" where
  "findResourceEntry s opts ignore =
     (case findResourceEntry_loop (objs s) opts ignore (open_archives s) of
        Some e \<Rightarrow> Some e
      | None \<Rightarrow>
          (case base_resource_archive s of
             Some b \<Rightarrow> a_findLast (objs s) b opts
           | None \<Rightarrow> None))"

text \<open>\<^verbatim>\<open>findAllResourceEntries\<close>: the base resource archive first, then the registry.\<close>

fun findAllResourceEntries_loop ::
  "Objects \<Rightarrow> SearchOptions \<Rightarrow> archive_ptr option \<Rightarrow> OpenArchive list \<Rightarrow> entry_ptr list
   \<Rightarrow> entry_ptr list" where
  "findAllResourceEntries_loop h opts ignore [] ret = ret"
| "findAllResourceEntries_loop h opts ignore (oa # rest) ret =
     (if \<not> resource oa then findAllResourceEntries_loop h opts ignore rest ret
      else if Some (archive oa) = ignore then findAllResourceEntries_loop h opts ignore rest ret
      else findAllResourceEntries_loop h opts ignore rest (ret @ a_findAll h (archive oa) opts))"

definition findAllResourceEntries ::
  "State \<Rightarrow> SearchOptions \<Rightarrow> archive_ptr option \<Rightarrow> entry_ptr list" where
  "findAllResourceEntries s opts ignore =
     (let ret = (case base_resource_archive s of
                   Some b \<Rightarrow> [] @ a_findAll (objs s) b opts
                 | None \<Rightarrow> [])
      in findAllResourceEntries_loop (objs s) opts ignore (open_archives s) ret)"

section \<open>Bookmarks\<close>

text \<open>\<^verbatim>\<open>weak_ptr<ArchiveEntry>::lock()\<close>.\<close>

definition lock_entry :: "Objects \<Rightarrow> entry_ptr option \<Rightarrow> entry_ptr option" where
  "lock_entry h w = (case w of None \<Rightarrow> None | Some e \<Rightarrow> if e_live h e then Some e else None)"

text \<open>
  \<^verbatim>\<open>addBookmark\<close>. The argument is a shared pointer: it is null or names a live entry.
\<close>

fun addBookmark_loop :: "Objects \<Rightarrow> entry_ptr option list \<Rightarrow> entry_ptr option \<Rightarrow> bool" where
  "addBookmark_loop h [] entry = False"
| "addBookmark_loop h (bookmark # rest) entry =
     (if lock_entry h bookmark = entry then True else addBookmark_loop h rest entry)"

definition addBookmark :: "entry_ptr option \<Rightarrow> State \<Rightarrow> State" where
  "addBookmark entry s =
     (if addBookmark_loop (objs s) (bookmarks s) entry then s
      else announce ''bookmarks_changed'' None (s\<lparr>bookmarks := bookmarks s @ [entry]\<rparr>))"

text \<open>
  \<^verbatim>\<open>deleteBookmark(ArchiveEntry*)\<close>: erases the first bookmark that locks to the
  entry. The loop either finds it (the list without it) or does not (\<open>None\<close>).
\<close>

fun deleteBookmark_loop ::
  "Objects \<Rightarrow> entry_ptr option list \<Rightarrow> entry_ptr option \<Rightarrow> entry_ptr option list option" where
  "deleteBookmark_loop h [] entry = None"
| "deleteBookmark_loop h (bookmark # rest) entry =
     (if lock_entry h bookmark = entry then Some rest
      else (case deleteBookmark_loop h rest entry of
              None \<Rightarrow> None
            | Some rest' \<Rightarrow> Some (bookmark # rest')))"

definition deleteBookmark :: "entry_ptr option \<Rightarrow> State \<Rightarrow> bool \<times> State" where
  "deleteBookmark entry s =
     (case deleteBookmark_loop (objs s) (bookmarks s) entry of
        Some bs \<Rightarrow> (True, announce ''bookmarks_changed'' None (s\<lparr>bookmarks := bs\<rparr>))
      | None \<Rightarrow> (False, s))"

text \<open>
  \<^verbatim>\<open>deleteBookmarksInArchive\<close>. The loop erases at the unsigned index \<open>a\<close> and
  decrements it; the loop's increment then puts \<open>a\<close> back (also at 0, where both wrap).
\<close>

function deleteBookmarksInArchive_loop ::
  "Objects \<Rightarrow> archive_ptr option \<Rightarrow> nat \<Rightarrow> entry_ptr option list \<Rightarrow> bool
   \<Rightarrow> entry_ptr option list \<times> bool" where
  "deleteBookmarksInArchive_loop h ar a bs removed =
     (if a < length bs then
        (case lock_entry h (bs ! a) of
           None \<Rightarrow> deleteBookmarksInArchive_loop h ar a (take a bs @ drop (Suc a) bs) True
         | Some bookmark \<Rightarrow>
             if e_parent h bookmark = ar
             then deleteBookmarksInArchive_loop h ar a (take a bs @ drop (Suc a) bs) True
             else deleteBookmarksInArchive_loop h ar (Suc a) bs removed)
      else (bs, removed))"
  by pat_completeness auto
termination
  by (relation "measure (\<lambda>(h, ar, a, bs, removed). length bs - a)") auto

declare deleteBookmarksInArchive_loop.simps [simp del]

definition deleteBookmarksInArchive :: "archive_ptr option \<Rightarrow> State \<Rightarrow> bool \<times> State" where
  "deleteBookmarksInArchive ar s =
     (case deleteBookmarksInArchive_loop (objs s) ar 0 (bookmarks s) False of
        (bs, removed) \<Rightarrow>
          if removed then (True, announce ''bookmarks_changed'' None (s\<lparr>bookmarks := bs\<rparr>))
          else (False, s\<lparr>bookmarks := bs\<rparr>))"

text \<open>
  \<^verbatim>\<open>deleteBookmarksInDir\<close>. The inner \<^verbatim>\<open>while\<close> walks from the bookmarked entry's
  directory up to the archive's root directory; \<open>ancestor_walk\<close> is that loop, its
  result the final value of \<^verbatim>\<open>remove\<close>.
\<close>

fun ancestor_walk ::
  "nat \<Rightarrow> Objects \<Rightarrow> archive_ptr option \<Rightarrow> dir_ptr \<Rightarrow> dir_ptr option \<Rightarrow> fault + bool" where
  "ancestor_walk 0 h ar node anode = Inl OutOfFuel"
| "ancestor_walk (Suc n) h ar node anode =
     (case ar of
        None \<Rightarrow> Inl NullDeref
      | Some a \<Rightarrow>
          if anode \<noteq> a_rootDir h a then
            (if anode = Some node then Inr True
             else (case anode of
                     None \<Rightarrow> Inl NullDeref
                   | Some d \<Rightarrow> ancestor_walk n h ar node (d_parent h d)))
          else Inr False)"

function deleteBookmarksInDir_loop ::
  "nat \<Rightarrow> Objects \<Rightarrow> archive_ptr option \<Rightarrow> dir_ptr \<Rightarrow> nat \<Rightarrow> entry_ptr option list \<Rightarrow> bool
   \<Rightarrow> fault + (entry_ptr option list \<times> bool)" where
  "deleteBookmarksInDir_loop n h ar node a bs removed =
     (if a < length bs then
        (case lock_entry h (bs ! a) of
           None \<Rightarrow> deleteBookmarksInDir_loop n h ar node a (take a bs @ drop (Suc a) bs) True
         | Some bookmark \<Rightarrow>
             if e_parent h bookmark = ar then
               (case ancestor_walk n h ar node (e_parentDir h bookmark) of
                  Inl f \<Rightarrow> Inl f
                | Inr remove \<Rightarrow>
                    if remove
                    then deleteBookmarksInDir_loop n h ar node a (take a bs @ drop (Suc a) bs) True
                    else deleteBookmarksInDir_loop n h ar node (Suc a) bs removed)
             else deleteBookmarksInDir_loop n h ar node (Suc a) bs removed)
      else Inr (bs, removed))"
  by pat_completeness auto
termination
  by (relation "measure (\<lambda>(n, h, ar, node, a, bs, removed). length bs - a)") auto

declare deleteBookmarksInDir_loop.simps [simp del]

definition deleteBookmarksInDir :: "nat \<Rightarrow> dir_ptr \<Rightarrow> State \<Rightarrow> fault + (bool \<times> State)" where
  "deleteBookmarksInDir n node s =
     (let ar = d_archive (objs s) node;
          (removed, s1) = deleteBookmark (d_dirEntry (objs s) node) s
      in case deleteBookmarksInDir_loop n (objs s1) ar node 0 (bookmarks s1) removed of
           Inl f \<Rightarrow> Inl f
         | Inr (bs, removed') \<Rightarrow>
             if removed'
             then Inr (True, announce ''bookmarks_changed'' None (s1\<lparr>bookmarks := bs\<rparr>))
             else Inr (False, s1\<lparr>bookmarks := bs\<rparr>))"

section \<open>Closing\<close>

text \<open>
  \<^verbatim>\<open>closeArchive(int index)\<close>. \<open>closeArchive_begin\<close> is the body up to the loop over
  the copy of \<open>open_children\<close> (it returns the copy and the state with the record's
  list cleared), \<open>closeArchive_children\<close> is that loop, and \<open>closeArchive_finish\<close> is
  the rest of the body after it: it
  reads \<open>open_archives[index]\<close> again, unlinks the archive from the record of the
  archive that owns its parent entry (\<open>closeArchive_unlink\<close>, the block that removes
  the archive from its parent's open-child list), closes the archive, erases the
  record and announces. The erase loop over the parent's children removes the first
  weak pointer that locks to the archive.
\<close>

definition closeArchive_unlink :: "archive_ptr \<Rightarrow> State \<Rightarrow> State" where
  "closeArchive_unlink a s =
     (case a_parentEntry (objs s) a of
        None \<Rightarrow> s
      | Some parent \<Rightarrow>
          (case e_parent (objs s) parent of
             None \<Rightarrow> s
           | Some gp \<Rightarrow>
               (let pi = archiveIndex s (Some gp) in
                if pi \<ge> 0 then
                  s\<lparr>open_archives := (open_archives s)[nat pi :=
                       (open_archives s ! nat pi)\<lparr>open_children :=
                          remove1 a (open_children (open_archives s ! nat pi))\<rparr>]\<rparr>
                else s)))"

definition closeArchive_finish ::
  "Env \<Rightarrow> int \<Rightarrow> 32 word option \<Rightarrow> State \<Rightarrow> fault + (bool \<times> State)" where
  "closeArchive_finish env index mc s =
     (if index \<ge> int (length (open_archives s)) then Inl OutOfRange
      else
        (let s1 = closeArchive_unlink (archive (open_archives s ! nat index)) s;
             s2 = s1\<lparr>objs := closeObj env (archive (open_archives s1 ! nat index)) (objs s1)\<rparr>;
             s3 = s2\<lparr>open_archives :=
                      take (nat index) (open_archives s2) @ drop (Suc (nat index)) (open_archives s2)\<rparr>
         in Inr (True, announce ''archive_closed'' mc s3)))"

definition closeArchive_begin :: "int \<Rightarrow> State \<Rightarrow> archive_ptr list \<times> State" where
  "closeArchive_begin index s =
     (let mc = Some (word_of_int index);
          s1 = announce ''archive_closing'' mc s;
          s2 = snd (deleteBookmarksInArchive (Some (archive (open_archives s1 ! nat index))) s1);
          s3 = resources_removeArchive (archive (open_archives s2 ! nat index)) s2;
          children = open_children (open_archives s3 ! nat index);
          s4 = s3\<lparr>open_archives := (open_archives s3)[nat index :=
                   (open_archives s3 ! nat index)\<lparr>open_children := []\<rparr>]\<rparr>
      in (children, s4))"

fun closeArchive :: "nat \<Rightarrow> Env \<Rightarrow> int \<Rightarrow> State \<Rightarrow> fault + (bool \<times> State)"
and closeArchive_children :: "nat \<Rightarrow> Env \<Rightarrow> archive_ptr list \<Rightarrow> State \<Rightarrow> fault + State" where
  "closeArchive 0 env index s = Inl OutOfFuel"
| "closeArchive (Suc n) env index s =
     (if index < 0 \<or> index \<ge> int (length (open_archives s)) then Inr (False, s)
      else
        (case closeArchive_children n env (fst (closeArchive_begin index s))
                (snd (closeArchive_begin index s)) of
           Inl f \<Rightarrow> Inl f
         | Inr s5 \<Rightarrow> closeArchive_finish env index (Some (word_of_int index)) s5))"
| "closeArchive_children n env [] s = Inr s"
| "closeArchive_children n env (c # rest) s =
     (if archiveIndex s (Some c) \<ge> 0 then
        (case closeArchive n env (archiveIndex s (Some c)) s of
           Inl f \<Rightarrow> Inl f
         | Inr rs \<Rightarrow> closeArchive_children n env rest (snd rs))
      else closeArchive_children n env rest s)"

text \<open>\<^verbatim>\<open>closeArchive(Archive*)\<close>: finds the position, then closes by position.\<close>

definition closeArchive_ptr ::
  "nat \<Rightarrow> Env \<Rightarrow> archive_ptr option \<Rightarrow> State \<Rightarrow> fault + (bool \<times> State)" where
  "closeArchive_ptr n env p s =
     (let a = archiveIndex s p in
      if a \<ge> 0 \<and> p \<noteq> None then closeArchive n env a s else Inr (False, s))"

section \<open>Opening\<close>

text \<open>
  The two chains of recognisers of \<^verbatim>\<open>openArchive\<close>, in the order of the
  \<^verbatim>\<open>if\<close> ... \<^verbatim>\<open>else if\<close>: the first that matches decides the codec. The chain
  for an entry tries \<open>Lib\<close> before \<open>Dat\<close> and asks for the name to end in \<^verbatim>\<open>.pod\<close>
  before it tries \<open>Pod\<close>.
\<close>

definition file_formats :: "format list" where
  "file_formats = [Wad, Zip, Res, Dat, Lib, Pak, BSP, Grp, Rff, Gob, Lfd, Hog, ADat, Wad2,
     WadJ, Wolf, GZip, BZip2, Tar, Disk, Pod, ChasmBin, SiN]"

definition entry_formats :: "format list" where
  "entry_formats = [Wad, Zip, Res, Lib, Dat, Pak, BSP, Grp, Rff, Gob, Lfd, Hog, ADat, Wad2,
     WadJ, Wolf, GZip, BZip2, Tar, Disk, Pod, ChasmBin, SiN]"

definition detect_file :: "Env \<Rightarrow> string \<Rightarrow> format option" where
  "detect_file env fn = find (\<lambda>f. isArchiveFile env f fn) file_formats"

definition detect_entry :: "Env \<Rightarrow> Objects \<Rightarrow> entry_ptr \<Rightarrow> format option" where
  "detect_entry env h e =
     find (\<lambda>f. if f = Pod
                then endsWithCI env (e_name h e) ''.pod'' \<and> isArchiveData env Pod (e_data h e)
                else isArchiveData env f (e_data h e))
       entry_formats"

text \<open>
  Modelled from the spec: the statement \<^verbatim>\<open>REPLACE INTO archive_file\<close> runs in the
  database, which is not part of the sources; the spec gives the table a unique
  \<open>path\<close> and the upsert the meaning replace-by-path.
\<close>

definition replace_into :: "archive_file_row \<Rightarrow> archive_file_row list \<Rightarrow> archive_file_row list" where
  "replace_into row t = filter (\<lambda>r. af_path r \<noteq> af_path row) t @ [row]"

definition addOrUpdateArchiveDB :: "Env \<Rightarrow> string \<Rightarrow> archive_ptr \<Rightarrow> State \<Rightarrow> State" where
  "addOrUpdateArchiveDB env file_path a s =
     (if cachedQuery env ''am_insert_archive_file'' then
        (let row =
           (if a_formatId (objs s) a \<noteq> ''folder'' then
              \<lparr>af_path = file_path, af_size = fileSize env file_path,
               af_md5 = fileMD5 env file_path, af_format_id = a_formatId (objs s) a,
               af_last_opened = now env, af_last_modified = fileModifiedTime env file_path\<rparr>
            else
              \<lparr>af_path = file_path, af_size = 0, af_md5 = [],
               af_format_id = a_formatId (objs s) a,
               af_last_opened = now env, af_last_modified = 0\<rparr>)
         in s\<lparr>archive_file := replace_into row (archive_file s)\<rparr>)
      else s)"

text \<open>The announcement \<^verbatim>\<open>archive_opened\<close> with the archive's index as \<^verbatim>\<open>uint32_t\<close>.\<close>

definition announce_opened :: "bool \<Rightarrow> archive_ptr \<Rightarrow> State \<Rightarrow> State" where
  "announce_opened silent a s =
     (if \<not> silent
      then announce ''archive_opened'' (Some (word_of_int (archiveIndex s (Some a)))) s
      else s)"

text \<open>The loop of \<^verbatim>\<open>openArchive(ArchiveEntry*)\<close> that looks for the entry among the
  parent entries of the open archives.\<close>

fun openArchive_entry_find :: "Objects \<Rightarrow> OpenArchive list \<Rightarrow> entry_ptr \<Rightarrow> archive_ptr option" where
  "openArchive_entry_find h [] entry = None"
| "openArchive_entry_find h (oa # rest) entry =
     (if a_parentEntry h (archive oa) = Some entry then Some (archive oa)
      else openArchive_entry_find h rest entry)"

text \<open>
  \<^verbatim>\<open>addArchive\<close> and \<^verbatim>\<open>openArchive(ArchiveEntry*)\<close> call each other: a zip or a
  directory added with \<open>auto_open_wads_root\<close> opens each of its entries of type
  \<^verbatim>\<open>wad\<close>, and opening an entry adds the new archive. \<open>addArchive_register\<close> is
  the body of \<^verbatim>\<open>addArchive\<close> up to the call of the Resource Index (none of it touches
  the object store), \<open>addArchive_entries\<close> is the loop over
  \<^verbatim>\<open>archive->rootDir()->allEntries()\<close> and \<open>addArchive_detect\<close> the sniffing of an
  entry of unknown type in it. \<open>openArchive_entry_start\<close> is the body of
  \<^verbatim>\<open>openArchive(ArchiveEntry*)\<close> up to its call of \<^verbatim>\<open>addArchive\<close>: \<open>Inl\<close> when it returns
  before, \<open>Inr\<close> with the new archive and the state in which \<^verbatim>\<open>addArchive\<close> is called.
\<close>

definition addArchive_register :: "archive_ptr \<Rightarrow> State \<Rightarrow> State" where
  "addArchive_register a s =
     (let s1 = s\<lparr>open_archives := open_archives s @
                  [\<lparr>archive = a, resource = True, open_children = []\<rparr>]\<rparr>;
          s2 = s1\<lparr>listening := listening s1 @ [a]\<rparr>;
          s3 = announce ''archive_added'' None s2
      in resources_addArchive a s3)"

definition addArchive_detect :: "Env \<Rightarrow> entry_ptr \<Rightarrow> State \<Rightarrow> State" where
  "addArchive_detect env entry s =
     (if e_type (objs s) entry = None
      then s\<lparr>objs := detectEntryType env entry (objs s)\<rparr> else s)"

definition openArchive_entry_start ::
  "Env \<Rightarrow> entry_ptr \<Rightarrow> bool \<Rightarrow> bool \<Rightarrow> State
   \<Rightarrow> (archive_ptr option \<times> State) + (archive_ptr \<times> State)" where
  "openArchive_entry_start env entry manage silent s =
     (case openArchive_entry_find (objs s) (open_archives s) entry of
        Some a \<Rightarrow> Inl (Some a, announce_opened silent a s)
      | None \<Rightarrow>
          (case detect_entry env (objs s) entry of
             None \<Rightarrow> Inl (None, s\<lparr>global_error := ''Unsupported or invalid Archive format''\<rparr>)
           | Some f \<Rightarrow>
               (case openEntry env f entry (objs s) of
                  None \<Rightarrow> Inl (None, s)
                | Some (new_archive, h') \<Rightarrow>
                    (let s1 = s\<lparr>objs := h'\<rparr> in
                     if manage then
                       (let index_parent =
                              (case e_parent (objs s1) entry of
                                 None \<Rightarrow> - 1
                               | Some pa \<Rightarrow> archiveIndex s1 (Some pa));
                            s2 = (if index_parent \<ge> 0 then
                                    s1\<lparr>open_archives := (open_archives s1)[nat index_parent :=
                                         (open_archives s1 ! nat index_parent)\<lparr>open_children :=
                                            open_children (open_archives s1 ! nat index_parent)
                                              @ [new_archive]\<rparr>]\<rparr>
                                  else s1)
                        in Inr (new_archive, s2))
                     else Inl (Some new_archive, s1)))))"

fun addArchive :: "nat \<Rightarrow> Env \<Rightarrow> archive_ptr option \<Rightarrow> State \<Rightarrow> fault + (bool \<times> State)"
and addArchive_entries :: "nat \<Rightarrow> Env \<Rightarrow> entry_ptr list \<Rightarrow> State \<Rightarrow> fault + State"
and openArchive_entry ::
  "nat \<Rightarrow> Env \<Rightarrow> entry_ptr option \<Rightarrow> bool \<Rightarrow> bool \<Rightarrow> State \<Rightarrow> fault + (archive_ptr option \<times> State)"
where
  "addArchive 0 env p s = Inl OutOfFuel"
| "addArchive (Suc n) env None s = Inr (False, s)"
| "addArchive (Suc n) env (Some a) s =
     (if (a_formatId (objs s) a = ''zip'' \<or> a_formatId (objs s) a = ''folder'')
         \<and> auto_open_wads_root env
      then (case addArchive_entries n env (a_allEntries (objs s) a) (addArchive_register a s) of
              Inl f \<Rightarrow> Inl f
            | Inr s5 \<Rightarrow> Inr (True, s5))
      else Inr (True, addArchive_register a s))"
| "addArchive_entries n env [] s = Inr s"
| "addArchive_entries n env (entry # rest) s =
     (if e_type (objs (addArchive_detect env entry s)) entry = Some ''wad''
      then (case openArchive_entry n env (Some entry) True True (addArchive_detect env entry s) of
              Inl f \<Rightarrow> Inl f
            | Inr rs \<Rightarrow> addArchive_entries n env rest (snd rs))
      else addArchive_entries n env rest (addArchive_detect env entry s))"
| "openArchive_entry n env None manage silent s = Inr (None, s)"
| "openArchive_entry n env (Some entry) manage silent s =
     (case openArchive_entry_start env entry manage silent s of
        Inl r \<Rightarrow> Inr r
      | Inr (new_archive, s2) \<Rightarrow>
          (case addArchive n env (Some new_archive) s2 of
             Inl f \<Rightarrow> Inl f
           | Inr rs \<Rightarrow>
               Inr (Some new_archive, announce_opened silent new_archive (snd rs))))"

text \<open>\<^verbatim>\<open>openDirArchive\<close> and \<^verbatim>\<open>openArchive(string_view)\<close>.\<close>

definition openDirArchive ::
  "nat \<Rightarrow> Env \<Rightarrow> string \<Rightarrow> bool \<Rightarrow> bool \<Rightarrow> State \<Rightarrow> fault + (archive_ptr option \<times> State)" where
  "openDirArchive n env dir manage silent s =
     (case getArchive s dir of
        Some a \<Rightarrow> Inr (Some a, announce_opened silent a s)
      | None \<Rightarrow>
          (case openFile env Dir dir (objs s) of
             None \<Rightarrow> Inr (None, s)
           | Some (new_archive, h') \<Rightarrow>
               (let s1 = s\<lparr>objs := h'\<rparr> in
                if manage then
                  (case addArchive n env (Some new_archive) s1 of
                     Inl f \<Rightarrow> Inl f
                   | Inr (r, s2) \<Rightarrow>
                       (let s3 = addOrUpdateArchiveDB env dir new_archive s2
                        in Inr (Some new_archive, announce_opened silent new_archive s3)))
                else Inr (Some new_archive, s1))))"

definition openArchive ::
  "nat \<Rightarrow> Env \<Rightarrow> string \<Rightarrow> bool \<Rightarrow> bool \<Rightarrow> State \<Rightarrow> fault + (archive_ptr option \<times> State)" where
  "openArchive n env filename manage silent s =
     (if dirExists env filename then openDirArchive n env filename manage silent s
      else
        (case getArchive s filename of
           Some a \<Rightarrow> Inr (Some a, announce_opened silent a s)
         | None \<Rightarrow>
             (case detect_file env filename of
                None \<Rightarrow> Inr (None, s\<lparr>global_error := ''Unsupported or invalid Archive format''\<rparr>)
              | Some f \<Rightarrow>
                  (case openFile env f filename (objs s) of
                     None \<Rightarrow> Inr (None, s)
                   | Some (new_archive, h') \<Rightarrow>
                       (let s1 = s\<lparr>objs := h'\<rparr> in
                        if manage then
                          (case addArchive n env (Some new_archive) s1 of
                             Inl f \<Rightarrow> Inl f
                           | Inr (r, s2) \<Rightarrow>
                               (let s3 = addOrUpdateArchiveDB env filename new_archive s2
                                in Inr (Some new_archive,
                                        announce_opened silent new_archive s3)))
                        else Inr (Some new_archive, s1))))))"

section \<open>The base resource archive\<close>

text \<open>
  \<^verbatim>\<open>getBaseResourcePath\<close>: the path of the row whose \<^verbatim>\<open>rowid\<close> is \<open>index + 1\<close>, empty
  when there is no such row or no read-only connection. The index is an \<^verbatim>\<open>unsigned\<close>,
  so \<open>index + 1\<close> is computed in 32 bits and wraps to 0 at the largest index;
  \<^verbatim>\<open>openBaseResource\<close> passes its \<^verbatim>\<open>int\<close> converted to \<^verbatim>\<open>unsigned\<close>.
\<close>

definition getBaseResourcePath :: "Env \<Rightarrow> State \<Rightarrow> 32 word \<Rightarrow> string" where
  "getBaseResourcePath env s index =
     (if \<not> connectionRO env then []
      else (case map_of (base_resource_path s) (unat (index + 1)) of
              Some path \<Rightarrow> path
            | None \<Rightarrow> []))"

definition openBaseResource :: "Env \<Rightarrow> int \<Rightarrow> State \<Rightarrow> bool \<times> State" where
  "openBaseResource env index s =
     (if base_resource_archive s \<noteq> None \<and> base_resource s = index then (True, s)
      else
        (let s1 = (case base_resource_archive s of
                     Some b \<Rightarrow> (resources_removeArchive b s)\<lparr>base_resource_archive := None\<rparr>
                   | None \<Rightarrow> s);
             filename = (if index \<ge> 0 then getBaseResourcePath env s1 (word_of_int index) else [])
         in if filename = [] then
              (False, announce ''base_resource_changed'' None (s1\<lparr>base_resource := - 1\<rparr>))
            else
              (case (if isArchiveFile env Wad filename then Some Wad
                     else if isArchiveFile env Zip filename then Some Zip
                     else None) of
                 None \<Rightarrow> (False, s1)
               | Some f \<Rightarrow>
                   (case openFile env f filename (objs s1) of
                      Some (b, h') \<Rightarrow>
                        (True, announce ''base_resource_changed'' None
                           (resources_addArchive b
                              (s1\<lparr>objs := h', base_resource_archive := Some b,
                                  base_resource := index\<rparr>)))
                    | None \<Rightarrow>
                        (False, announce ''base_resource_changed'' None
                           (s1\<lparr>base_resource_archive := None\<rparr>))))))"

section \<open>Notions the properties are stated with\<close>

definition resource_candidates :: "archive_ptr option \<Rightarrow> OpenArchive list \<Rightarrow> OpenArchive list" where
  "resource_candidates ignore rs = filter (\<lambda>oa. resource oa \<and> Some (archive oa) \<noteq> ignore) rs"

definition lookups_own_entries :: "Objects \<Rightarrow> bool" where
  "lookups_own_entries h =
     (\<forall>x e. ((\<exists>name. a_entry h x name = Some e) \<or> (\<exists>opts. a_findLast h x opts = Some e)
             \<or> (\<exists>opts. e \<in> set (a_findAll h x opts))) \<longrightarrow> e_parent h e = Some x)"

text \<open>
  The ancestor-directory chain of a directory, walked up toward the archive's root
  directory: the directory itself, its parent, and so on up to and including the
  root, when the root is reached within \<open>n\<close> steps. A bookmarked entry lies under a
  directory when the chain of the entry's own directory passes through it.
  \<open>pruned_by_dir\<close> collects the three kinds of bookmark the spec has
  \<^verbatim>\<open>deleteBookmarksInDir\<close> remove: one whose weak pointer no longer resolves, the one
  of the directory's own entry, and one of an entry of the same archive under the
  directory. \<open>chains_reach_root\<close> is the data model's invariant (every entry's ancestor
  chain terminates at its archive's root directory) for the live bookmarked entries
  of the archive.
\<close>

fun dir_chain :: "nat \<Rightarrow> Objects \<Rightarrow> dir_ptr \<Rightarrow> dir_ptr \<Rightarrow> dir_ptr list option" where
  "dir_chain 0 h root d = (if d = root then Some [d] else None)"
| "dir_chain (Suc n) h root d =
     (if d = root then Some [d]
      else (case d_parent h d of
              None \<Rightarrow> None
            | Some p \<Rightarrow> (case dir_chain n h root p of
                           None \<Rightarrow> None
                         | Some ch \<Rightarrow> Some (d # ch))))"

definition under_dir :: "nat \<Rightarrow> Objects \<Rightarrow> dir_ptr \<Rightarrow> dir_ptr \<Rightarrow> entry_ptr \<Rightarrow> bool" where
  "under_dir n h root node e =
     (case e_parentDir h e of
        None \<Rightarrow> False
      | Some d \<Rightarrow> (case dir_chain n h root d of None \<Rightarrow> False | Some ch \<Rightarrow> node \<in> set ch))"

definition pruned_by_dir ::
  "nat \<Rightarrow> Objects \<Rightarrow> archive_ptr \<Rightarrow> dir_ptr \<Rightarrow> dir_ptr \<Rightarrow> entry_ptr option \<Rightarrow> bool" where
  "pruned_by_dir n h a root node w =
     (case lock_entry h w of
        None \<Rightarrow> True
      | Some b \<Rightarrow> Some b = d_dirEntry h node \<or> (e_parent h b = Some a \<and> under_dir n h root node b))"

definition chains_reach_root ::
  "nat \<Rightarrow> Objects \<Rightarrow> archive_ptr \<Rightarrow> dir_ptr \<Rightarrow> entry_ptr option list \<Rightarrow> bool" where
  "chains_reach_root n h a root bs =
     (\<forall>b. Some b \<in> set bs \<and> e_live h b \<and> e_parent h b = Some a \<longrightarrow>
          (\<exists>d ch. e_parentDir h b = Some d \<and> dir_chain n h root d = Some ch))"


text \<open>
  The registry as a set of archives, and the child list of an archive: the weak links
  its record holds.
\<close>

definition registered :: "State \<Rightarrow> archive_ptr set" where
  "registered s = archive ` set (open_archives s)"

definition child_list :: "State \<Rightarrow> archive_ptr \<Rightarrow> archive_ptr list" where
  "child_list s x = concat (map open_children (filter (\<lambda>r. archive r = x) (open_archives s)))"

text \<open>
  The shape the manager gives the registry. A child is registered by
  \<^verbatim>\<open>openArchive(ArchiveEntry*)\<close>, which links the new archive into the record of the
  archive that owns the entry and then pushes the new record at the end: so no
  archive has two records, a registered child stands after its parent
  (\<open>children_follow\<close>), no child list holds an archive twice, and each listed child's
  parent entry belongs to the listing archive (\<open>links_consistent\<close>). Closing only
  erases records and links, which keeps all of it. \<open>follow_from\<close> is
  \<open>children_follow\<close> by recursion over the list: no record lists an archive seen
  before it or itself.
\<close>

definition children_follow :: "OpenArchive list \<Rightarrow> bool" where
  "children_follow R =
     (\<forall>i<length R. \<forall>j<length R. archive (R ! j) \<in> set (open_children (R ! i)) \<longrightarrow> i < j)"

definition links_consistent :: "Objects \<Rightarrow> OpenArchive list \<Rightarrow> bool" where
  "links_consistent h R =
     (\<forall>r \<in> set R. distinct (open_children r) \<and>
        (\<forall>c \<in> set (open_children r).
           \<exists>e. a_parentEntry h c = Some e \<and> e_parent h e = Some (archive r)))"

definition registry_ok :: "State \<Rightarrow> bool" where
  "registry_ok s =
     (distinct (map archive (open_archives s)) \<and> children_follow (open_archives s) \<and>
      links_consistent (objs s) (open_archives s))"

fun follow_from :: "archive_ptr set \<Rightarrow> OpenArchive list \<Rightarrow> bool" where
  "follow_from seen [] = True"
| "follow_from seen (r # rs) =
     (set (open_children r) \<inter> insert (archive r) seen = {} \<and>
      follow_from (insert (archive r) seen) rs)"

text \<open>
  What is asked of a codec's \<^verbatim>\<open>close\<close>: closing an archive changes neither the owner
  nor the liveness of an entry of another archive, nor the parent entry of an archive
  whose parent entry does not belong to the closed one.
\<close>

definition close_frame :: "Env \<Rightarrow> bool" where
  "close_frame env =
     (\<forall>x h. (\<forall>e. e_parent h e \<noteq> Some x \<longrightarrow>
                  e_parent (closeObj env x h) e = e_parent h e \<and>
                  e_live (closeObj env x h) e = e_live h e) \<and>
            (\<forall>y. (\<forall>e. a_parentEntry h y = Some e \<longrightarrow> e_parent h e \<noteq> Some x) \<longrightarrow>
                 a_parentEntry (closeObj env x h) y = a_parentEntry h y))"

text \<open>
  The archives that closing \<open>a\<close> closes with it, in the spec's words: the archive
  itself and, recursively, every child that a record of such an archive lists and
  that is still registered.
\<close>

inductive_set reach :: "OpenArchive list \<Rightarrow> archive_ptr \<Rightarrow> archive_ptr set"
  for R :: "OpenArchive list" and a :: archive_ptr where
  reach_root: "a \<in> reach R a"
| reach_child: "x \<in> reach R a \<Longrightarrow> r \<in> set R \<Longrightarrow> archive r = x \<Longrightarrow>
     c \<in> set (open_children r) \<Longrightarrow> c \<in> archive ` set R \<Longrightarrow> c \<in> reach R a"

text \<open>
  A registry \<open>R'\<close> that has lost records and links of \<open>R\<close> and gained none.
\<close>

definition sub_registry :: "OpenArchive list \<Rightarrow> OpenArchive list \<Rightarrow> bool" where
  "sub_registry R' R =
     (\<forall>r' \<in> set R'. \<exists>r \<in> set R. archive r = archive r' \<and>
          set (open_children r') \<subseteq> set (open_children r))"

text \<open>
  The registry with the archives \<open>X\<close> closed: their records erased and the links to
  them dropped from every remaining child list.
\<close>

definition drop_children :: "archive_ptr set \<Rightarrow> OpenArchive \<Rightarrow> OpenArchive" where
  "drop_children X r = r\<lparr>open_children := filter (\<lambda>k. k \<notin> X) (open_children r)\<rparr>"

definition registry_without :: "archive_ptr set \<Rightarrow> OpenArchive list \<Rightarrow> OpenArchive list" where
  "registry_without X R = map (drop_children X) (filter (\<lambda>r. archive r \<notin> X) R)"

text \<open>
  \<open>in_archive\<close> is the test of the loop of \<^verbatim>\<open>deleteBookmarksInArchive\<close>, and
  \<open>in_archives X\<close> says that closing the archives \<open>X\<close> removes a bookmark: its entry
  belongs to one of them, or its weak pointer no longer resolves (and some archive is
  closed at all). The relations between the state before and after the archives \<open>X\<close>
  are closed: entries of other archives keep their owner and liveness and archives
  their parent entry (\<open>heap_rel\<close>), the bookmarks are the old ones without those that
  \<open>in_archives X\<close> holds of (\<open>mark_rel\<close>), and the registry is the old one without \<open>X\<close>
  (\<open>closed_rel\<close>). \<open>children_closed\<close> says that \<open>X\<close> holds the registered children of
  its members, and \<open>subtree_closed\<close> collects what one call of \<^verbatim>\<open>closeArchive\<close> at
  position \<open>k\<close> achieves.
\<close>

definition in_archive :: "Objects \<Rightarrow> archive_ptr \<Rightarrow> entry_ptr option \<Rightarrow> bool" where
  "in_archive h a w = (case lock_entry h w of None \<Rightarrow> True | Some b \<Rightarrow> e_parent h b = Some a)"

definition in_archives :: "archive_ptr set \<Rightarrow> Objects \<Rightarrow> entry_ptr option \<Rightarrow> bool" where
  "in_archives X h w =
     (case lock_entry h w of None \<Rightarrow> X \<noteq> {} | Some b \<Rightarrow> e_parent h b \<in> Some ` X)"

definition heap_rel :: "archive_ptr set \<Rightarrow> Objects \<Rightarrow> Objects \<Rightarrow> bool" where
  "heap_rel X h h' =
     ((\<forall>e. e_parent h e \<notin> Some ` X \<longrightarrow> e_parent h' e = e_parent h e \<and> e_live h' e = e_live h e) \<and>
      (\<forall>y e. a_parentEntry h y = Some e \<and> e_parent h e \<notin> Some ` X \<longrightarrow> a_parentEntry h' y = Some e))"

definition mark_rel :: "archive_ptr set \<Rightarrow> State \<Rightarrow> State \<Rightarrow> bool" where
  "mark_rel X s s' =
     (bookmarks s' = filter (\<lambda>w. \<not> in_archives X (objs s) w) (bookmarks s))"

definition closed_rel :: "archive_ptr set \<Rightarrow> State \<Rightarrow> State \<Rightarrow> bool" where
  "closed_rel X s s' =
     (open_archives s' = registry_without X (open_archives s) \<and>
      heap_rel X (objs s) (objs s') \<and> mark_rel X s s')"

definition children_closed :: "archive_ptr set \<Rightarrow> State \<Rightarrow> bool" where
  "children_closed X s =
     (\<forall>r \<in> set (open_archives s). archive r \<in> X \<longrightarrow>
        set (open_children r) \<inter> registered s \<subseteq> X)"

definition subtree_closed :: "archive_ptr set \<Rightarrow> nat \<Rightarrow> State \<Rightarrow> State \<Rightarrow> bool" where
  "subtree_closed X k s s' =
     (closed_rel X s s' \<and> X \<subseteq> registered s \<and>
      X \<inter> archive ` set (take k (open_archives s)) = {} \<and> children_closed X s)"

section \<open>The archives that automatic expansion opens\<close>

text \<open>
  What the spec says of adding a zip or folder archive with the toggle on, as
  functions of the object store: \<open>sniffs_wad\<close> is the entry's content type being wad,
  sniffed first when it is still unknown; \<open>opens\<close> is the archive that an entry opens
  as (none when no recogniser accepts its data or the codec fails); \<open>wad_kids\<close> lists,
  in the order of the entries, the archives that the wad entries of an expanding
  archive open as; \<open>subtree\<close> lists an archive and, recursively, the archives opened
  from it, in the order in which they are registered; \<open>nested n\<close> bounds the depth of
  that nesting by \<open>n\<close>; and \<open>record_of\<close> is the registry record an archive ends up with:
  a resource whose children are the archives opened from its wad entries.
\<close>

definition sniffs_wad :: "Env \<Rightarrow> Objects \<Rightarrow> entry_ptr \<Rightarrow> bool" where
  "sniffs_wad env h e =
     (e_type (if e_type h e = None then detectEntryType env e h else h) e = Some ''wad'')"

definition opens :: "Env \<Rightarrow> Objects \<Rightarrow> entry_ptr \<Rightarrow> archive_ptr option" where
  "opens env h e =
     (case detect_entry env h e of
        None \<Rightarrow> None
      | Some g \<Rightarrow> map_option fst (openEntry env g e h))"

definition expands :: "Env \<Rightarrow> Objects \<Rightarrow> archive_ptr \<Rightarrow> bool" where
  "expands env h x =
     ((a_formatId h x = ''zip'' \<or> a_formatId h x = ''folder'') \<and> auto_open_wads_root env)"

fun wads_of :: "Env \<Rightarrow> Objects \<Rightarrow> entry_ptr list \<Rightarrow> archive_ptr list" where
  "wads_of env h [] = []"
| "wads_of env h (e # es) =
     (if sniffs_wad env h e
      then (case opens env h e of
              None \<Rightarrow> wads_of env h es
            | Some c \<Rightarrow> c # wads_of env h es)
      else wads_of env h es)"

definition wad_kids :: "Env \<Rightarrow> Objects \<Rightarrow> archive_ptr \<Rightarrow> archive_ptr list" where
  "wad_kids env h x = (if expands env h x then wads_of env h (a_allEntries h x) else [])"

fun subtree :: "nat \<Rightarrow> Env \<Rightarrow> Objects \<Rightarrow> archive_ptr \<Rightarrow> archive_ptr list" where
  "subtree 0 env h x = [x]"
| "subtree (Suc n) env h x = x # concat (map (subtree n env h) (wad_kids env h x))"

fun nested :: "nat \<Rightarrow> Env \<Rightarrow> Objects \<Rightarrow> archive_ptr \<Rightarrow> bool" where
  "nested 0 env h x = False"
| "nested (Suc n) env h x = (\<forall>c \<in> set (wad_kids env h x). nested n env h c)"

definition record_of :: "Env \<Rightarrow> Objects \<Rightarrow> archive_ptr \<Rightarrow> OpenArchive" where
  "record_of env h x = \<lparr>archive = x, resource = True, open_children = wad_kids env h x\<rparr>"

text \<open>
  What is asked of the codecs and of the type sniffer, which are not part of the
  sources. \<open>same_world env h0 h\<close>: the store \<open>h\<close> describes the archives and entries as
  \<open>h0\<close> does (formats, entry lists, owners, parent entries, and what sniffing and
  opening an entry give); \<open>stable_world\<close>: sniffing an entry of unknown type and
  opening an entry keep it so, whatever else they change; \<open>world_ok\<close>: the entries an
  archive lists are its own, and the archives whose parent entry an entry is are
  exactly the one it opens as.
\<close>

definition same_world :: "Env \<Rightarrow> Objects \<Rightarrow> Objects \<Rightarrow> bool" where
  "same_world env h0 h =
     (a_formatId h = a_formatId h0 \<and> a_allEntries h = a_allEntries h0 \<and>
      a_parentEntry h = a_parentEntry h0 \<and> e_parent h = e_parent h0 \<and>
      (\<forall>e. sniffs_wad env h e = sniffs_wad env h0 e) \<and>
      (\<forall>e. opens env h e = opens env h0 e))"

definition stable_world :: "Env \<Rightarrow> Objects \<Rightarrow> bool" where
  "stable_world env h0 =
     (\<forall>h. same_world env h0 h \<longrightarrow>
          (\<forall>e. e_type h e = None \<longrightarrow> same_world env h0 (detectEntryType env e h)) \<and>
          (\<forall>g e c h'. openEntry env g e h = Some (c, h') \<longrightarrow> same_world env h0 h'))"

definition world_ok :: "Env \<Rightarrow> Objects \<Rightarrow> bool" where
  "world_ok env h =
     ((\<forall>x e. e \<in> set (a_allEntries h x) \<longrightarrow> e_parent h e = Some x) \<and>
      (\<forall>e y. (a_parentEntry h y = Some e) = (opens env h e = Some y)))"

text \<open>
  The manager's bookkeeping for the archives \<open>xs\<close> added between two states, in that
  order: each is listened to, announced as added and given to the Resource Index, and
  nothing else is announced; bookmarks and the table of archive files are untouched.
\<close>

definition adds :: "archive_ptr list \<Rightarrow> State \<Rightarrow> State \<Rightarrow> bool" where
  "adds xs t t' =
     (listening t' = listening t @ xs \<and>
      announced t' = announced t @ map (\<lambda>x. (''archive_added'', None)) xs \<and>
      resources_calls t' = resources_calls t @ map ResAddArchive xs \<and>
      bookmarks t' = bookmarks t \<and> archive_file t' = archive_file t)"

section \<open>A sample session\<close>

text \<open>
  The objects of a small session, used to run the definitions: the archive 1 is
  \<^verbatim>\<open>a.zip\<close>, whose directory \<^verbatim>\<open>maps\<close> (11) holds the entry \<^verbatim>\<open>e1m1.wad\<close> (21) and the
  directory 13 with the entry 23, and whose directory \<^verbatim>\<open>gfx\<close> (12) holds the entry 22;
  the archive 2 is opened from the entry 21 and the archive 3 from the entry 31 of
  the archive 2; the archive 4 is \<^verbatim>\<open>other.wad\<close> and the archive 9 is the base resource
  archive \<^verbatim>\<open>base.wad\<close>. The entries 111, 112 and 113 are the directory entries of the
  directories 11, 12 and 13, and the entry 99 has been destroyed.
\<close>

definition sample_objs :: Objects where
  "sample_objs =
     \<lparr>a_filename = (\<lambda>a. if a = 1 then ''a.zip'' else if a = 2 then ''e1m1.wad''
                       else if a = 3 then ''inner.wad'' else if a = 4 then ''other.wad''
                       else if a = 9 then ''base.wad'' else []),
      a_formatId = (\<lambda>a. if a = 1 then ''zip'' else ''wad''),
      a_parentEntry = (\<lambda>a. if a = 2 then Some 21 else if a = 3 then Some 31 else None),
      a_rootDir = (\<lambda>a. Some (10 * a)),
      a_allEntries = (\<lambda>a. if a = 1 then [21, 23, 22] else if a = 2 then [31]
                         else if a = 3 then [41] else if a = 4 then [51]
                         else if a = 9 then [91] else []),
      a_entry = (\<lambda>a name. if name = ''PLAYPAL'' then
                    (if a = 2 then Some 31 else if a = 4 then Some 51
                     else if a = 9 then Some 91 else None) else None),
      a_findLast = (\<lambda>a opts. if opts = ''PLAYPAL'' then
                    (if a = 2 then Some 31 else if a = 4 then Some 51
                     else if a = 9 then Some 91 else None) else None),
      a_findAll = (\<lambda>a opts. if opts = ''PLAYPAL'' then
                    (if a = 2 then [31] else if a = 4 then [51]
                     else if a = 9 then [91] else []) else []),
      e_parent = (\<lambda>e. if e \<in> {21, 22, 23, 111, 112, 113} then Some 1
                      else if e = 31 then Some 2 else if e = 41 then Some 3
                      else if e = 51 then Some 4 else if e = 91 then Some 9 else None),
      e_parentDir = (\<lambda>e. if e = 21 then Some 11 else if e = 22 then Some 12
                      else if e = 23 then Some 13 else if e = 111 then Some 10
                      else if e = 112 then Some 10 else if e = 113 then Some 11
                      else if e = 31 then Some 20 else if e = 41 then Some 30
                      else if e = 51 then Some 40 else if e = 91 then Some 90 else None),
      e_type = (\<lambda>e. if e = 21 then Some ''wad'' else if e = 22 then Some ''png'' else None),
      e_name = (\<lambda>e. if e = 21 then ''e1m1.wad'' else if e = 22 then ''x.png''
                    else if e = 31 then ''inner.wad'' else ''PLAYPAL''),
      e_data = (\<lambda>e. if e = 21 then [1] else if e = 31 then [1] else [0]),
      e_live = (\<lambda>e. e \<noteq> 99),
      d_parent = (\<lambda>d. if d = 11 \<or> d = 12 then Some 10 else if d = 13 then Some 11 else None),
      d_archive = (\<lambda>d. if d \<in> {10, 11, 12, 13} then Some 1 else if d = 20 then Some 2
                      else if d = 30 then Some 3 else if d = 40 then Some 4
                      else if d = 90 then Some 9 else None),
      d_dirEntry = (\<lambda>d. if d = 11 then Some 111 else if d = 12 then Some 112
                       else if d = 13 then Some 113 else None)\<rparr>"

text \<open>
  The session with the four archives open, \<^verbatim>\<open>other.wad\<close> not a resource, the base
  resource archive loaded from the first base resource path, and six bookmarks.
\<close>

definition sample_state :: State where
  "sample_state =
     \<lparr>open_archives =
        [\<lparr>archive = 1, resource = True, open_children = [2]\<rparr>,
         \<lparr>archive = 2, resource = True, open_children = [3]\<rparr>,
         \<lparr>archive = 3, resource = True, open_children = []\<rparr>,
         \<lparr>archive = 4, resource = False, open_children = []\<rparr>],
      bookmarks = [Some 22, Some 31, Some 41, Some 51, Some 23, Some 111],
      base_resource_archive = Some 9,
      base_resource = 0,
      global_error = [],
      resources_calls = [],
      listening = [1, 2, 3, 4],
      announced = [],
      archive_file = [],
      base_resource_path = [(1, ''base.wad'')],
      objs = sample_objs\<rparr>"

text \<open>
  The world of the sample session: \<^verbatim>\<open>a.zip\<close> is a zip, \<^verbatim>\<open>base.wad\<close> a wad, the data
  of the entries 21 and 31 is a wad, every open succeeds and stores nothing new (the
  sample store already describes the archives 1, 2 and 3), and closing an archive
  destroys its entries.
\<close>

definition sample_env :: Env where
  "sample_env =
     \<lparr>auto_open_wads_root = True,
      dirExists = (\<lambda>fn. False),
      isArchiveFile = (\<lambda>f fn. (f = Zip \<and> fn = ''a.zip'') \<or> (f = Wad \<and> fn = ''base.wad'')),
      isArchiveData = (\<lambda>f d. f = Wad \<and> d = [1]),
      endsWithCI = (\<lambda>str suffix. False),
      openFile = (\<lambda>f fn h. if fn = ''a.zip'' then Some (1, h)
                            else if fn = ''base.wad'' then Some (9, h) else None),
      openEntry = (\<lambda>f e h. if e = 21 then Some (2, h) else if e = 31 then Some (3, h) else None),
      closeObj = (\<lambda>a h. h\<lparr>e_live := (\<lambda>e. e_live h e \<and> e_parent h e \<noteq> Some a)\<rparr>),
      detectEntryType = (\<lambda>e h. h\<lparr>e_type := (e_type h)(e := Some ''text'')\<rparr>),
      fileSize = (\<lambda>fn. 100),
      fileMD5 = (\<lambda>fn. ''d41d8cd9''),
      fileModifiedTime = (\<lambda>fn. 1000),
      now = 2000,
      cachedQuery = (\<lambda>q. True),
      connectionRO = True\<rparr>"

text \<open>
  The sample session before \<^verbatim>\<open>a.zip\<close> is opened: only \<^verbatim>\<open>other.wad\<close> is open.
\<close>

definition sample_before :: State where
  "sample_before =
     sample_state\<lparr>open_archives := [\<lparr>archive = 4, resource = False, open_children = []\<rparr>],
                  bookmarks := [Some 51], listening := [4]\<rparr>"

text \<open>The sample world with codecs whose \<^verbatim>\<open>open\<close> fails on everything.\<close>

definition sample_env_failing :: Env where
  "sample_env_failing = sample_env\<lparr>openFile := (\<lambda>f fn h. None), openEntry := (\<lambda>f e h. None)\<rparr>"

text \<open>The sample session with other bookmarks, one of them (99) expired.\<close>

definition sample_marks :: State where
  "sample_marks = sample_state\<lparr>bookmarks := [Some 22, Some 99, Some 31, Some 23, Some 111, Some 21]\<rparr>"


text \<open>
  The sample session after \<^verbatim>\<open>addArchive\<close> has been called once more for the archive 2,
  which is registered already: the archive has two records.
\<close>

definition sample_twice :: State where
  "sample_twice =
     sample_state\<lparr>open_archives := open_archives sample_state @
                     [\<lparr>archive = 2, resource = True, open_children = []\<rparr>],
                  listening := [1, 2, 3, 4, 2],
                  announced := [(''archive_added'', None)],
                  resources_calls := [ResAddArchive 2]\<rparr>"

text \<open>
  A second sample world, for automatic expansion. The archive 1 is \<^verbatim>\<open>a.zip\<close> with
  the entries 21 (a wad, which opens as the archive 2), 22 (a picture), 23 (of unknown
  type, sniffed as wad; its data is a zip, which opens as the archive 3) and 24 (typed
  wad, but no recogniser accepts its data). The archive 3 holds the entries 32 (a wad,
  which opens as the archive 4) and 33 (unknown, sniffed as text). The archive 5 is the
  directory \<^verbatim>\<open>mods\<close> with the entries 51 (a wad, which opens as the archive 6) and 52.
  The codecs' \<^verbatim>\<open>open\<close> stores nothing new: the store already describes the archives.
  In the session only the archive 7, \<^verbatim>\<open>other.wad\<close>, is open.
\<close>

definition sample_pk3 :: Objects where
  "sample_pk3 =
     \<lparr>a_filename = (\<lambda>a. if a = 1 then ''a.zip'' else if a = 2 then ''e1m1.wad''
                       else if a = 3 then ''more.pk3'' else if a = 4 then ''e2m1.wad''
                       else if a = 5 then ''mods'' else if a = 6 then ''m.wad''
                       else if a = 7 then ''other.wad'' else []),
      a_formatId = (\<lambda>a. if a = 1 \<or> a = 3 then ''zip'' else if a = 5 then ''folder'' else ''wad''),
      a_parentEntry = (\<lambda>a. if a = 2 then Some 21 else if a = 3 then Some 23
                          else if a = 4 then Some 32 else if a = 6 then Some 51 else None),
      a_rootDir = (\<lambda>a. Some (10 * a)),
      a_allEntries = (\<lambda>a. if a = 1 then [21, 22, 23, 24] else if a = 2 then [31]
                         else if a = 3 then [32, 33] else if a = 5 then [51, 52] else []),
      a_entry = (\<lambda>a name. None),
      a_findLast = (\<lambda>a opts. None),
      a_findAll = (\<lambda>a opts. []),
      e_parent = (\<lambda>e. if e \<in> {21, 22, 23, 24} then Some 1 else if e = 31 then Some 2
                      else if e \<in> {32, 33} then Some 3 else if e \<in> {51, 52} then Some 5
                      else None),
      e_parentDir = (\<lambda>e. None),
      e_type = (\<lambda>e. if e \<in> {21, 24, 32, 51} then Some ''wad'' else if e = 22 then Some ''png''
                    else if e = 23 \<or> e = 33 then None else Some ''text''),
      e_name = (\<lambda>e. if e = 21 then ''e1m1.wad'' else if e = 23 then ''more.pk3'' else ''LUMP''),
      e_data = (\<lambda>e. if e \<in> {21, 32, 51} then [1] else if e = 23 then [2] else [0]),
      e_live = (\<lambda>e. True),
      d_parent = (\<lambda>d. None),
      d_archive = (\<lambda>d. None),
      d_dirEntry = (\<lambda>d. None)\<rparr>"

definition sample_pk3_env :: Env where
  "sample_pk3_env =
     sample_env\<lparr>dirExists := (\<lambda>fn. fn = ''mods''),
                isArchiveFile := (\<lambda>f fn. f = Zip \<and> fn = ''a.zip''),
                isArchiveData := (\<lambda>f d. (f = Wad \<and> d = [1]) \<or> (f = Zip \<and> d = [2])),
                openFile := (\<lambda>f fn h. if f = Zip \<and> fn = ''a.zip'' then Some (1, h)
                                       else if f = Dir \<and> fn = ''mods'' then Some (5, h)
                                       else None),
                openEntry := (\<lambda>f e h. if e = 21 then Some (2, h) else if e = 23 then Some (3, h)
                                       else if e = 32 then Some (4, h)
                                       else if e = 51 then Some (6, h) else None),
                detectEntryType :=
                  (\<lambda>e h. h\<lparr>e_type := (e_type h)(e := Some (if e = 23 then ''wad'' else ''text''))\<rparr>)\<rparr>"

definition sample_pk3_state :: State where
  "sample_pk3_state =
     \<lparr>open_archives = [\<lparr>archive = 7, resource = False, open_children = []\<rparr>],
      bookmarks = [],
      base_resource_archive = None,
      base_resource = - 1,
      global_error = [],
      resources_calls = [],
      listening = [7],
      announced = [],
      archive_file = [],
      base_resource_path = [],
      objs = sample_pk3\<rparr>"

section \<open>Facts about the registry\<close>

lemma archiveIndex_from_shift:
  "archiveIndex_from a rs p =
     (if archiveIndex_from 0 rs p < 0 then - 1 else a + archiveIndex_from 0 rs p)"
proof (induction rs arbitrary: a)
  case Nil
  then show ?case by simp
next
  case (Cons oa rs)
  from Cons.IH[of "a + 1"] Cons.IH[of 1] show ?case by auto
qed

lemma archiveIndex_from_range:
  "archiveIndex_from 0 rs p = - 1 \<or>
   (0 \<le> archiveIndex_from 0 rs p \<and> archiveIndex_from 0 rs p < int (length rs))"
proof (induction rs)
  case Nil
  then show ?case by simp
next
  case (Cons oa rs)
  then show ?case using archiveIndex_from_shift[of 1 rs p] by auto
qed

lemma archiveIndex_from_absent:
  "(archiveIndex_from 0 rs p < 0) = (p \<notin> (\<lambda>oa. Some (archive oa)) ` set rs)"
proof (induction rs)
  case Nil
  then show ?case by simp
next
  case (Cons oa rs)
  then show ?case using archiveIndex_from_shift[of 1 rs p] by auto
qed

lemma archiveIndex_from_nth:
  "0 \<le> archiveIndex_from 0 rs p \<Longrightarrow> Some (archive (rs ! nat (archiveIndex_from 0 rs p))) = p"
proof (induction rs)
  case Nil
  then show ?case by simp
next
  case (Cons oa rs)
  show ?case
  proof (cases "Some (archive oa) = p")
    case True
    then show ?thesis by simp
  next
    case False
    with Cons.prems have ge: "0 \<le> archiveIndex_from 0 rs p"
      using archiveIndex_from_shift[of 1 rs p] by (auto split: if_splits)
    have eq: "archiveIndex_from 0 (oa # rs) p = 1 + archiveIndex_from 0 rs p"
      using False ge archiveIndex_from_shift[of 1 rs p] by auto
    have "nat (1 + archiveIndex_from 0 rs p) = Suc (nat (archiveIndex_from 0 rs p))"
      using ge by simp
    with Cons.IH[OF ge] eq show ?thesis by simp
  qed
qed

lemma archiveIndex_from_first:
  "j < nat (archiveIndex_from 0 rs p) \<Longrightarrow> Some (archive (rs ! j)) \<noteq> p"
proof (induction rs arbitrary: j)
  case Nil
  then show ?case by simp
next
  case (Cons oa rs)
  show ?case
  proof (cases "Some (archive oa) = p")
    case True
    with Cons.prems show ?thesis by simp
  next
    case False
    show ?thesis
    proof (cases j)
      case 0
      with False show ?thesis by simp
    next
      case (Suc k)
      have "archiveIndex_from 0 (oa # rs) p =
         (if archiveIndex_from 0 rs p < 0 then - 1 else 1 + archiveIndex_from 0 rs p)"
        using False archiveIndex_from_shift[of 1 rs p] by simp
      with Cons.prems Suc have "k < nat (archiveIndex_from 0 rs p)"
        by (auto split: if_splits)
      from Cons.IH[OF this] Suc show ?thesis by simp
    qed
  qed
qed

text \<open>Registered archives, as a set.\<close>

lemma archiveIndex_neg_iff:
  "(archiveIndex s (Some a) < 0) = (a \<notin> archive ` set (open_archives s))"
  unfolding archiveIndex_def archiveIndex_from_absent by auto

lemma archiveIndex_None: "archiveIndex s None = - 1"
  using archiveIndex_from_absent[of "open_archives s" None]
    archiveIndex_from_range[of "open_archives s" None]
  unfolding archiveIndex_def by auto

lemma archiveIndex_found:
  assumes "a \<in> archive ` set (open_archives s)"
  shows "0 \<le> archiveIndex s (Some a)"
    and "nat (archiveIndex s (Some a)) < length (open_archives s)"
    and "archive (open_archives s ! nat (archiveIndex s (Some a))) = a"
proof -
  from assms have nn: "\<not> archiveIndex s (Some a) < 0" by (simp add: archiveIndex_neg_iff)
  then show ge: "0 \<le> archiveIndex s (Some a)" by simp
  from nn archiveIndex_from_range[of "open_archives s" "Some a"]
  show "nat (archiveIndex s (Some a)) < length (open_archives s)"
    unfolding archiveIndex_def by auto
  from archiveIndex_from_nth[of "open_archives s" "Some a"] ge
  show "archive (open_archives s ! nat (archiveIndex s (Some a))) = a"
    unfolding archiveIndex_def by simp
qed

section \<open>The resource flag\<close>

text \<open>
  Claim C10. \<^verbatim>\<open>setArchiveResource\<close> keeps the Resource Index in step with the record's
  flag: for a null pointer or an archive that no record holds it changes nothing; for a
  registered archive it writes the flag of the first record holding it and calls the
  Resource Index's \<^verbatim>\<open>addArchive\<close> exactly when the flag goes from false to true and
  \<^verbatim>\<open>removeArchive\<close> exactly when it goes from true to false, so that setting the flag
  to its current value leaves the whole state, registry and Resource Index included,
  as it was.
\<close>

theorem setArchiveResource_sync:
  "setArchiveResource None res s = s \<and>
   (a \<notin> archive ` set (open_archives s) \<longrightarrow> setArchiveResource (Some a) res s = s) \<and>
   (a \<in> archive ` set (open_archives s) \<longrightarrow>
      (let i = nat (archiveIndex s (Some a));
           was = resource (open_archives s ! i);
           s' = setArchiveResource (Some a) res s
       in i < length (open_archives s) \<and> archive (open_archives s ! i) = a \<and>
          (\<forall>j < i. archive (open_archives s ! j) \<noteq> a) \<and>
          s' = s\<lparr>open_archives := (open_archives s)[i := (open_archives s ! i)\<lparr>resource := res\<rparr>],
                 resources_calls := resources_calls s @
                   (if res \<and> \<not> was then [ResAddArchive a]
                    else if \<not> res \<and> was then [ResRemoveArchive a] else [])\<rparr> \<and>
          (res = was \<longrightarrow> s' = s)))"
proof (intro conjI impI)
  show "setArchiveResource None res s = s"
    by (simp add: setArchiveResource_def archiveIndex_None)
next
  assume "a \<notin> archive ` set (open_archives s)"
  then have "archiveIndex s (Some a) < 0" by (simp add: archiveIndex_neg_iff)
  then show "setArchiveResource (Some a) res s = s"
    by (simp add: setArchiveResource_def)
next
  assume reg: "a \<in> archive ` set (open_archives s)"
  note f = archiveIndex_found[OF reg]
  have first: "\<forall>j < nat (archiveIndex s (Some a)). archive (open_archives s ! j) \<noteq> a"
    using archiveIndex_from_first[of _ "open_archives s" "Some a"]
    unfolding archiveIndex_def by auto
  have same: "(open_archives s)[nat (archiveIndex s (Some a)) :=
        (open_archives s ! nat (archiveIndex s (Some a)))
          \<lparr>resource := resource (open_archives s ! nat (archiveIndex s (Some a)))\<rparr>] = open_archives s"
    by (simp add: list_update_same_conv)
  show "let i = nat (archiveIndex s (Some a));
           was = resource (open_archives s ! i);
           s' = setArchiveResource (Some a) res s
       in i < length (open_archives s) \<and> archive (open_archives s ! i) = a \<and>
          (\<forall>j < i. archive (open_archives s ! j) \<noteq> a) \<and>
          s' = s\<lparr>open_archives := (open_archives s)[i := (open_archives s ! i)\<lparr>resource := res\<rparr>],
                 resources_calls := resources_calls s @
                   (if res \<and> \<not> was then [ResAddArchive a]
                    else if \<not> res \<and> was then [ResRemoveArchive a] else [])\<rparr> \<and>
          (res = was \<longrightarrow> s' = s)"
    using f first same
    by (auto simp: Let_def setArchiveResource_def resources_addArchive_def
        resources_removeArchive_def)
qed

theorem setArchiveResource_sync_witness:
  "4 \<in> archive ` set (open_archives sample_state) \<and>
   5 \<notin> archive ` set (open_archives sample_state) \<and>
   setArchiveResource (Some 5) True sample_state = sample_state \<and>
   setArchiveResource (Some 4) False sample_state = sample_state \<and>
   map resource (open_archives (setArchiveResource (Some 4) True sample_state))
     = [True, True, True, True] \<and>
   resources_calls (setArchiveResource (Some 4) True sample_state) = [ResAddArchive 4] \<and>
   resources_calls (setArchiveResource (Some 1) False sample_state) = [ResRemoveArchive 1]"
proof -
  have reg4: "4 \<in> archive ` set (open_archives sample_state)"
    and reg1: "1 \<in> archive ` set (open_archives sample_state)"
    and unreg5: "5 \<notin> archive ` set (open_archives sample_state)"
    by (simp_all add: sample_state_def)
  have ix4: "nat (archiveIndex sample_state (Some 4)) = 3"
    and ix1: "nat (archiveIndex sample_state (Some 1)) = 0"
    by (simp_all add: archiveIndex_def sample_state_def)
  have r4: "resource (open_archives sample_state ! 3) = False"
    and r1: "resource (open_archives sample_state ! 0) = True"
    by (simp_all add: sample_state_def)
  from setArchiveResource_sync[of True sample_state 5] unreg5
  have a: "setArchiveResource (Some 5) True sample_state = sample_state" by simp
  have b: "setArchiveResource (Some 4) False sample_state = sample_state"
    using setArchiveResource_sync[of False sample_state 4] reg4 r4
    unfolding Let_def ix4 by blast
  from setArchiveResource_sync[of True sample_state 4] reg4 ix4 r4
  have c: "setArchiveResource (Some 4) True sample_state =
      sample_state\<lparr>open_archives := (open_archives sample_state)[3 :=
          (open_archives sample_state ! 3)\<lparr>resource := True\<rparr>],
        resources_calls := resources_calls sample_state @ [ResAddArchive 4]\<rparr>"
    by (simp add: Let_def)
  from setArchiveResource_sync[of False sample_state 1] reg1 ix1 r1
  have d: "setArchiveResource (Some 1) False sample_state =
      sample_state\<lparr>open_archives := (open_archives sample_state)[0 :=
          (open_archives sample_state ! 0)\<lparr>resource := False\<rparr>],
        resources_calls := resources_calls sample_state @ [ResRemoveArchive 1]\<rparr>"
    by (simp add: Let_def)
  show ?thesis
    unfolding a b c d using reg4 unreg5 by (simp add: sample_state_def)
qed

section \<open>Adding a bookmark\<close>

lemma addBookmark_loop_iff:
  "addBookmark_loop h bs entry = (entry \<in> lock_entry h ` set bs)"
  by (induction bs) auto

lemma lock_entry_Some_iff:
  "(lock_entry h w = Some e) = (w = Some e \<and> e_live h e)"
  by (auto simp: lock_entry_def split: option.splits if_splits)

lemma addBookmark_loop_live:
  "e_live h e \<Longrightarrow> addBookmark_loop h bs (Some e) = (Some e \<in> set bs)"
  by (induction bs) (auto simp: lock_entry_Some_iff)

text \<open>
  Claim C8. \<^verbatim>\<open>addBookmark\<close> on an entry (the shared pointer keeps it alive): when a
  bookmark of the list is this entry, the state is unchanged, so nothing is appended
  and nothing announced; otherwise exactly one bookmark, the entry, is appended and
  \<^verbatim>\<open>bookmarks_changed\<close> is announced once. Adding the same entry a second time
  changes nothing, and an entry bookmarked at most once before is bookmarked exactly
  once after two calls.
\<close>

theorem addBookmark_idempotent:
  assumes "e_live (objs s) e"
  shows "(Some e \<in> set (bookmarks s) \<longrightarrow> addBookmark (Some e) s = s) \<and>
         (Some e \<notin> set (bookmarks s) \<longrightarrow>
            addBookmark (Some e) s =
              s\<lparr>bookmarks := bookmarks s @ [Some e],
                announced := announced s @ [(''bookmarks_changed'', None)]\<rparr>) \<and>
         addBookmark (Some e) (addBookmark (Some e) s) = addBookmark (Some e) s \<and>
         (count_list (bookmarks s) (Some e) \<le> 1 \<longrightarrow>
            count_list (bookmarks (addBookmark (Some e) (addBookmark (Some e) s))) (Some e) = 1)"
proof -
  have in_case: "Some e \<in> set (bookmarks s) \<Longrightarrow> addBookmark (Some e) s = s"
    using assms by (simp add: addBookmark_def addBookmark_loop_live)
  have out_case: "Some e \<notin> set (bookmarks s) \<Longrightarrow>
      addBookmark (Some e) s =
        s\<lparr>bookmarks := bookmarks s @ [Some e],
          announced := announced s @ [(''bookmarks_changed'', None)]\<rparr>"
    using assms by (simp add: addBookmark_def addBookmark_loop_live announce_def)
  have live': "e_live (objs (addBookmark (Some e) s)) e"
    using assms by (simp add: addBookmark_def announce_def)
  have mem': "Some e \<in> set (bookmarks (addBookmark (Some e) s))"
    using in_case out_case by (cases "Some e \<in> set (bookmarks s)") auto
  have twice: "addBookmark (Some e) (addBookmark (Some e) s) = addBookmark (Some e) s"
    using live' mem' by (simp add: addBookmark_def[of "Some e" "addBookmark (Some e) s"]
        addBookmark_loop_live)
  have cnt: "count_list (bookmarks s) (Some e) \<le> 1 \<Longrightarrow>
      count_list (bookmarks (addBookmark (Some e) s)) (Some e) = 1"
  proof (cases "Some e \<in> set (bookmarks s)")
    case True
    assume le: "count_list (bookmarks s) (Some e) \<le> 1"
    from True have "0 < count_list (bookmarks s) (Some e)"
      using count_list_0_iff[of "bookmarks s" "Some e"] by auto
    with le in_case[OF True] show ?thesis by simp
  next
    case False
    then have "count_list (bookmarks s) (Some e) = 0" by (simp add: count_list_0_iff)
    with out_case[OF False] show ?thesis by simp
  qed
  from in_case out_case twice cnt show ?thesis by simp
qed

theorem addBookmark_idempotent_witness:
  "e_live (objs sample_state) 21 \<and> e_live (objs sample_state) 22 \<and>
   Some 21 \<notin> set (bookmarks sample_state) \<and> Some 22 \<in> set (bookmarks sample_state) \<and>
   addBookmark (Some 22) sample_state = sample_state \<and>
   bookmarks (addBookmark (Some 21) sample_state) = bookmarks sample_state @ [Some 21] \<and>
   announced (addBookmark (Some 21) sample_state) = [(''bookmarks_changed'', None)] \<and>
   addBookmark (Some 21) (addBookmark (Some 21) sample_state) = addBookmark (Some 21) sample_state \<and>
   count_list (bookmarks (addBookmark (Some 21) (addBookmark (Some 21) sample_state))) (Some 21) = 1"
proof -
  have live: "e_live (objs sample_state) 21" "e_live (objs sample_state) 22"
    by (simp_all add: sample_state_def sample_objs_def)
  have mem: "Some 21 \<notin> set (bookmarks sample_state)" "Some 22 \<in> set (bookmarks sample_state)"
    "count_list (bookmarks sample_state) (Some 21) \<le> 1"
    by (simp_all add: sample_state_def)
  have ann: "announced sample_state = []" by (simp add: sample_state_def)
  note t21 = addBookmark_idempotent[OF live(1)]
  note t22 = addBookmark_idempotent[OF live(2)]
  from t21 mem(1) have a1: "addBookmark (Some 21) sample_state =
      sample_state\<lparr>bookmarks := bookmarks sample_state @ [Some 21],
        announced := announced sample_state @ [(''bookmarks_changed'', None)]\<rparr>"
    by blast
  from t21 have a2: "addBookmark (Some 21) (addBookmark (Some 21) sample_state) =
      addBookmark (Some 21) sample_state"
    by blast
  from t21 mem(3)
  have a3: "count_list (bookmarks (addBookmark (Some 21) (addBookmark (Some 21) sample_state)))
      (Some 21) = 1"
    by blast
  from t22 mem(2) have a4: "addBookmark (Some 22) sample_state = sample_state" by blast
  have b1: "bookmarks (addBookmark (Some 21) sample_state) = bookmarks sample_state @ [Some 21]"
    by (simp add: a1)
  have b2: "announced (addBookmark (Some 21) sample_state) = [(''bookmarks_changed'', None)]"
    by (simp add: a1 ann)
  from live mem(1,2) a4 b1 b2 a2 a3 show ?thesis by blast
qed

section \<open>Resource lookup: order and the resource flag\<close>

lemma getResourceEntry_loop_eq:
  "getResourceEntry_loop h name ignore rs =
     (case filter (\<lambda>oa. a_entry h (archive oa) name \<noteq> None) (resource_candidates ignore rs) of
        [] \<Rightarrow> None
      | oa # rest \<Rightarrow> a_entry h (archive oa) name)"
  by (induction rs) (auto simp: resource_candidates_def split: option.splits)

lemma findResourceEntry_loop_eq:
  "findResourceEntry_loop h opts ignore rs =
     (case filter (\<lambda>oa. a_findLast h (archive oa) opts \<noteq> None) (resource_candidates ignore rs) of
        [] \<Rightarrow> None
      | oa # rest \<Rightarrow> a_findLast h (archive oa) opts)"
  by (induction rs) (auto simp: resource_candidates_def split: option.splits)

lemma findAllResourceEntries_loop_eq:
  "findAllResourceEntries_loop h opts ignore rs ret =
     ret @ concat (map (\<lambda>oa. a_findAll h (archive oa) opts) (resource_candidates ignore rs))"
  by (induction rs arbitrary: ret) (auto simp: resource_candidates_def)

text \<open>
  Claim C5. The list of \<^verbatim>\<open>findAllResourceEntries\<close> is the matches of the base
  resource archive (when one is loaded) followed by the matches of the open archives
  that are resources and not ignored, archive by archive in registry order, so no
  match of an open archive comes before a match of the base resource archive. The
  single-result queries \<^verbatim>\<open>getResourceEntry\<close> and \<^verbatim>\<open>findResourceEntry\<close> return the match
  of the first such open archive, in registry order, that has one, and ask the base
  resource archive only when none has.
\<close>

theorem resource_search_order:
  "findAllResourceEntries s opts ignore =
     (case base_resource_archive s of Some b \<Rightarrow> a_findAll (objs s) b opts | None \<Rightarrow> [])
     @ concat (map (\<lambda>oa. a_findAll (objs s) (archive oa) opts)
                (resource_candidates ignore (open_archives s))) \<and>
   getResourceEntry s name ignore =
     (case filter (\<lambda>oa. a_entry (objs s) (archive oa) name \<noteq> None)
             (resource_candidates ignore (open_archives s)) of
        oa # rest \<Rightarrow> a_entry (objs s) (archive oa) name
      | [] \<Rightarrow> (case base_resource_archive s of
                 Some b \<Rightarrow> a_entry (objs s) b name | None \<Rightarrow> None)) \<and>
   findResourceEntry s opts ignore =
     (case filter (\<lambda>oa. a_findLast (objs s) (archive oa) opts \<noteq> None)
             (resource_candidates ignore (open_archives s)) of
        oa # rest \<Rightarrow> a_findLast (objs s) (archive oa) opts
      | [] \<Rightarrow> (case base_resource_archive s of
                 Some b \<Rightarrow> a_findLast (objs s) b opts | None \<Rightarrow> None))"
proof (intro conjI)
  show "findAllResourceEntries s opts ignore =
     (case base_resource_archive s of Some b \<Rightarrow> a_findAll (objs s) b opts | None \<Rightarrow> [])
     @ concat (map (\<lambda>oa. a_findAll (objs s) (archive oa) opts)
                (resource_candidates ignore (open_archives s)))"
    by (simp add: findAllResourceEntries_def findAllResourceEntries_loop_eq
        split: option.splits)
next
  have hd_in: "\<And>P xs x ys. filter P xs = x # ys \<Longrightarrow> P x"
    by (metis filter_eq_ConsD)
  show "getResourceEntry s name ignore =
     (case filter (\<lambda>oa. a_entry (objs s) (archive oa) name \<noteq> None)
             (resource_candidates ignore (open_archives s)) of
        oa # rest \<Rightarrow> a_entry (objs s) (archive oa) name
      | [] \<Rightarrow> (case base_resource_archive s of
                 Some b \<Rightarrow> a_entry (objs s) b name | None \<Rightarrow> None))"
    unfolding getResourceEntry_def getResourceEntry_loop_eq
    by (auto split: list.splits option.splits dest: hd_in)
  show "findResourceEntry s opts ignore =
     (case filter (\<lambda>oa. a_findLast (objs s) (archive oa) opts \<noteq> None)
             (resource_candidates ignore (open_archives s)) of
        oa # rest \<Rightarrow> a_findLast (objs s) (archive oa) opts
      | [] \<Rightarrow> (case base_resource_archive s of
                 Some b \<Rightarrow> a_findLast (objs s) b opts | None \<Rightarrow> None))"
    unfolding findResourceEntry_def findResourceEntry_loop_eq
    by (auto split: list.splits option.splits dest: hd_in)
qed

lemma getResourceEntry_loop_source:
  "getResourceEntry_loop h name ignore rs = Some e \<Longrightarrow>
   \<exists>oa \<in> set rs. resource oa \<and> Some (archive oa) \<noteq> ignore \<and> a_entry h (archive oa) name = Some e"
  by (induction rs) (auto split: if_splits option.splits)

lemma findResourceEntry_loop_source:
  "findResourceEntry_loop h opts ignore rs = Some e \<Longrightarrow>
   \<exists>oa \<in> set rs. resource oa \<and> Some (archive oa) \<noteq> ignore \<and> a_findLast h (archive oa) opts = Some e"
  by (induction rs) (auto split: if_splits option.splits)

lemma findAllResourceEntries_loop_source:
  "e \<in> set (findAllResourceEntries_loop h opts ignore rs ret) \<Longrightarrow>
   e \<in> set ret \<or>
   (\<exists>oa \<in> set rs. resource oa \<and> Some (archive oa) \<noteq> ignore \<and> e \<in> set (a_findAll h (archive oa) opts))"
  unfolding findAllResourceEntries_loop_eq by (auto simp: resource_candidates_def)

text \<open>
  Claim C4. An archive all of whose records carry \<open>resource = False\<close> (and which is
  not the base resource archive, an object of its own) contributes nothing to the
  resource queries: no entry that belongs to it is returned by \<^verbatim>\<open>getResourceEntry\<close> or
  \<^verbatim>\<open>findResourceEntry\<close> or listed by \<^verbatim>\<open>findAllResourceEntries\<close>, whatever the name,
  the criteria and the ignored archive. The codecs are taken to answer a lookup in an
  archive with entries of that archive.
\<close>

theorem non_resource_never_returned:
  assumes own: "lookups_own_entries (objs s)"
    and flag: "\<forall>oa \<in> set (open_archives s). archive oa = a \<longrightarrow> \<not> resource oa"
    and base: "base_resource_archive s \<noteq> Some a"
    and ent: "e_parent (objs s) e = Some a"
  shows "getResourceEntry s name ignore \<noteq> Some e \<and>
         findResourceEntry s opts ignore \<noteq> Some e \<and>
         e \<notin> set (findAllResourceEntries s opts ignore)"
proof (intro conjI notI)
  assume "getResourceEntry s name ignore = Some e"
  then consider
    (reg) "getResourceEntry_loop (objs s) name ignore (open_archives s) = Some e"
    | (bas) b where "base_resource_archive s = Some b" "a_entry (objs s) b name = Some e"
    by (auto simp: getResourceEntry_def split: option.splits)
  then show False
  proof cases
    case reg
    from getResourceEntry_loop_source[OF reg] obtain oa where
      oa: "oa \<in> set (open_archives s)" "resource oa" "a_entry (objs s) (archive oa) name = Some e"
      by auto
    from own oa(3) have "e_parent (objs s) e = Some (archive oa)"
      unfolding lookups_own_entries_def by blast
    with ent flag oa show False by auto
  next
    case bas
    from own bas(2) have "e_parent (objs s) e = Some b"
      unfolding lookups_own_entries_def by blast
    with ent base bas(1) show False by auto
  qed
next
  assume "findResourceEntry s opts ignore = Some e"
  then consider
    (reg) "findResourceEntry_loop (objs s) opts ignore (open_archives s) = Some e"
    | (bas) b where "base_resource_archive s = Some b" "a_findLast (objs s) b opts = Some e"
    by (auto simp: findResourceEntry_def split: option.splits)
  then show False
  proof cases
    case reg
    from findResourceEntry_loop_source[OF reg] obtain oa where
      oa: "oa \<in> set (open_archives s)" "resource oa" "a_findLast (objs s) (archive oa) opts = Some e"
      by auto
    from own oa(3) have "e_parent (objs s) e = Some (archive oa)"
      unfolding lookups_own_entries_def by blast
    with ent flag oa show False by auto
  next
    case bas
    from own bas(2) have "e_parent (objs s) e = Some b"
      unfolding lookups_own_entries_def by blast
    with ent base bas(1) show False by auto
  qed
next
  assume mem: "e \<in> set (findAllResourceEntries s opts ignore)"
  have "(\<exists>b. base_resource_archive s = Some b \<and> e \<in> set (a_findAll (objs s) b opts)) \<or>
        (\<exists>oa \<in> set (open_archives s). resource oa \<and>
           e \<in> set (a_findAll (objs s) (archive oa) opts))"
    using findAllResourceEntries_loop_source[OF mem[unfolded findAllResourceEntries_def Let_def]]
    by (cases "base_resource_archive s") auto
  then consider
    (bas) b where "base_resource_archive s = Some b" "e \<in> set (a_findAll (objs s) b opts)"
    | (reg) oa where "oa \<in> set (open_archives s)" "resource oa"
        "e \<in> set (a_findAll (objs s) (archive oa) opts)"
    by blast
  then show False
  proof cases
    case bas
    from own bas(2) have "e_parent (objs s) e = Some b"
      unfolding lookups_own_entries_def by blast
    with ent base bas(1) show False by auto
  next
    case reg
    from own reg(3) have "e_parent (objs s) e = Some (archive oa)"
      unfolding lookups_own_entries_def by blast
    with ent flag reg show False by auto
  qed
qed

theorem resource_search_order_witness:
  "findAllResourceEntries sample_state ''PLAYPAL'' None = [91, 31] \<and>
   getResourceEntry sample_state ''PLAYPAL'' None = Some 31 \<and>
   getResourceEntry sample_state ''PLAYPAL'' (Some 2) = Some 91 \<and>
   findResourceEntry sample_state ''PLAYPAL'' (Some 2) = Some 91"
proof -
  have c: "resource_candidates None (open_archives sample_state) = take 3 (open_archives sample_state)"
    "resource_candidates (Some 2) (open_archives sample_state) =
       [open_archives sample_state ! 0, open_archives sample_state ! 2]"
    by (simp_all add: resource_candidates_def sample_state_def)
  show ?thesis
    using resource_search_order[of sample_state "''PLAYPAL''" None "''PLAYPAL''"]
      resource_search_order[of sample_state "''PLAYPAL''" "Some 2" "''PLAYPAL''"]
    unfolding c by (simp add: sample_state_def sample_objs_def)
qed

theorem non_resource_never_returned_witness:
  "lookups_own_entries (objs sample_state) \<and>
   map resource (filter (\<lambda>oa. archive oa = 4) (open_archives sample_state)) = [False] \<and>
   base_resource_archive sample_state \<noteq> Some 4 \<and>
   e_parent (objs sample_state) 51 = Some 4 \<and>
   a_entry (objs sample_state) 4 ''PLAYPAL'' = Some 51 \<and>
   getResourceEntry sample_state ''PLAYPAL'' None \<noteq> Some 51 \<and>
   findResourceEntry sample_state ''PLAYPAL'' (Some 2) \<noteq> Some 51 \<and>
   51 \<notin> set (findAllResourceEntries sample_state ''PLAYPAL'' None)"
proof -
  have own: "lookups_own_entries (objs sample_state)"
    unfolding lookups_own_entries_def
    by (auto simp: sample_state_def sample_objs_def split: if_splits)
  have flag: "\<forall>oa \<in> set (open_archives sample_state). archive oa = 4 \<longrightarrow> \<not> resource oa"
    by (simp add: sample_state_def)
  have base: "base_resource_archive sample_state \<noteq> Some 4"
    and ent: "e_parent (objs sample_state) 51 = Some 4"
    and look: "a_entry (objs sample_state) 4 ''PLAYPAL'' = Some 51"
    and fl: "map resource (filter (\<lambda>oa. archive oa = 4) (open_archives sample_state)) = [False]"
    by (simp_all add: sample_state_def sample_objs_def)
  from non_resource_never_returned[OF own flag base ent, of "''PLAYPAL''" None "''PLAYPAL''"]
    non_resource_never_returned[OF own flag base ent, of "''PLAYPAL''" "Some 2" "''PLAYPAL''"]
    own base ent look fl
  show ?thesis by blast
qed

section \<open>Opening a path that is already open\<close>

lemma getArchive_loop_found:
  "fn \<in> (\<lambda>oa. a_filename h (archive oa)) ` set rs \<Longrightarrow>
   \<exists>i a. i < length rs \<and> getArchive_loop h rs fn = Some a \<and> archive (rs ! i) = a \<and>
         a_filename h a = fn \<and> (\<forall>j<i. a_filename h (archive (rs ! j)) \<noteq> fn) \<and>
         archiveIndex_from 0 rs (Some a) = int i"
proof (induction rs)
  case Nil
  then show ?case by simp
next
  case (Cons oa rs)
  show ?case
  proof (cases "a_filename h (archive oa) = fn")
    case True
    then have "0 < length (oa # rs) \<and> getArchive_loop h (oa # rs) fn = Some (archive oa) \<and>
        archive ((oa # rs) ! 0) = archive oa \<and> a_filename h (archive oa) = fn \<and>
        (\<forall>j<0. a_filename h (archive ((oa # rs) ! j)) \<noteq> fn) \<and>
        archiveIndex_from 0 (oa # rs) (Some (archive oa)) = int 0"
      by simp
    then show ?thesis by blast
  next
    case False
    with Cons.prems have "fn \<in> (\<lambda>oa. a_filename h (archive oa)) ` set rs" by auto
    from Cons.IH[OF this] obtain i a where ia: "i < length rs" "getArchive_loop h rs fn = Some a"
      "archive (rs ! i) = a" "a_filename h a = fn"
      "\<forall>j<i. a_filename h (archive (rs ! j)) \<noteq> fn" "archiveIndex_from 0 rs (Some a) = int i"
      by blast
    from False ia(4) have ne: "archive oa \<noteq> a" by auto
    have first: "\<forall>j<Suc i. a_filename h (archive ((oa # rs) ! j)) \<noteq> fn"
    proof (intro allI impI)
      fix j assume "j < Suc i"
      then show "a_filename h (archive ((oa # rs) ! j)) \<noteq> fn"
        using False ia(5) by (cases j) auto
    qed
    have idx: "archiveIndex_from 0 (oa # rs) (Some a) = int (Suc i)"
      using ne ia(6) archiveIndex_from_shift[of 1 rs "Some a"] by simp
    from False ia first idx
    have "Suc i < length (oa # rs) \<and> getArchive_loop h (oa # rs) fn = Some a \<and>
        archive ((oa # rs) ! Suc i) = a \<and> a_filename h a = fn \<and>
        (\<forall>j<Suc i. a_filename h (archive ((oa # rs) ! j)) \<noteq> fn) \<and>
        archiveIndex_from 0 (oa # rs) (Some a) = int (Suc i)"
      by simp
    then show ?thesis by blast
  qed
qed

lemma replace_into_distinct:
  "distinct (map af_path t) \<Longrightarrow> distinct (map af_path (replace_into row t))"
  by (auto simp: replace_into_def distinct_map_filter)

lemma replace_into_paths:
  "set (map af_path (replace_into row t)) = insert (af_path row) (set (map af_path t))"
  by (auto simp: replace_into_def)

text \<open>
  Claim C2. When an open archive has the file name \<open>fn\<close>, \<^verbatim>\<open>openArchive(fn, manage,
  silent)\<close> returns the first such archive of the registry, the very object already
  registered, and the state it leaves differs from the one it found only by the
  announcement: \<^verbatim>\<open>archive_opened\<close> with that archive's registry position when \<open>silent\<close>
  is false, nothing when it is true. So the registry has no new record, the Resource
  Index receives no call and the table \<^verbatim>\<open>archive_file\<close> is not written. This holds
  whether or not the path is a directory and for every fuel. Where the table is
  written (a first open), replace-by-path keeps its paths distinct.
\<close>

theorem openArchive_already_open:
  assumes "fn \<in> (\<lambda>oa. a_filename (objs s) (archive oa)) ` set (open_archives s)"
  shows "\<exists>i a. i < length (open_archives s) \<and> archive (open_archives s ! i) = a \<and>
           a_filename (objs s) a = fn \<and>
           (\<forall>j<i. a_filename (objs s) (archive (open_archives s ! j)) \<noteq> fn) \<and>
           openArchive n env fn manage silent s =
             Inr (Some a, s\<lparr>announced := announced s @
                    (if silent then [] else [(''archive_opened'', Some (word_of_int (int i)))])\<rparr>) \<and>
           open_archives (snd (projr (openArchive n env fn manage silent s))) = open_archives s \<and>
           archive_file (snd (projr (openArchive n env fn manage silent s))) = archive_file s \<and>
           resources_calls (snd (projr (openArchive n env fn manage silent s))) = resources_calls s \<and>
           (distinct (map af_path (archive_file s)) \<longrightarrow>
              distinct (map af_path (archive_file (addOrUpdateArchiveDB env fn a s))))"
proof -
  from getArchive_loop_found[OF assms] obtain i a where ia: "i < length (open_archives s)"
    "getArchive s fn = Some a" "archive (open_archives s ! i) = a" "a_filename (objs s) a = fn"
    "\<forall>j<i. a_filename (objs s) (archive (open_archives s ! j)) \<noteq> fn"
    "archiveIndex s (Some a) = int i"
    unfolding getArchive_def archiveIndex_def by blast
  have res: "openArchive n env fn manage silent s =
      Inr (Some a, s\<lparr>announced := announced s @
             (if silent then [] else [(''archive_opened'', Some (word_of_int (int i)))])\<rparr>)"
    using ia(2,6)
    by (simp add: openArchive_def openDirArchive_def announce_opened_def announce_def)
  have db: "distinct (map af_path (archive_file s)) \<longrightarrow>
      distinct (map af_path (archive_file (addOrUpdateArchiveDB env fn a s)))"
    by (simp add: addOrUpdateArchiveDB_def Let_def replace_into_distinct)
  from ia res db show ?thesis
    by (intro exI[of _ i] exI[of _ a]) simp
qed

theorem openArchive_already_open_witness:
  "''e1m1.wad'' \<in> (\<lambda>oa. a_filename (objs sample_state) (archive oa)) ` set (open_archives sample_state) \<and>
   openArchive 0 sample_env ''e1m1.wad'' True False sample_state =
     Inr (Some 2, sample_state\<lparr>announced := [(''archive_opened'', Some 1)]\<rparr>) \<and>
   openArchive 0 sample_env ''e1m1.wad'' True True sample_state = Inr (Some 2, sample_state)"
proof -
  have reg: "''e1m1.wad'' \<in>
      (\<lambda>oa. a_filename (objs sample_state) (archive oa)) ` set (open_archives sample_state)"
    by (simp add: sample_state_def sample_objs_def)
  have pos: "\<And>i. i < length (open_archives sample_state) \<Longrightarrow>
      a_filename (objs sample_state) (archive (open_archives sample_state ! i)) = ''e1m1.wad'' \<Longrightarrow>
      i = 1 \<and> archive (open_archives sample_state ! i) = 2"
  proof -
    fix i assume "i < length (open_archives sample_state)"
      and f: "a_filename (objs sample_state) (archive (open_archives sample_state ! i)) = ''e1m1.wad''"
    then have "i = 0 \<or> i = 1 \<or> i = 2 \<or> i = 3" by (auto simp: sample_state_def)
    with f show "i = 1 \<and> archive (open_archives sample_state ! i) = 2"
      by (auto simp: sample_state_def sample_objs_def)
  qed
  have ann: "announced sample_state = []" by (simp add: sample_state_def)
  have loud: "openArchive 0 sample_env ''e1m1.wad'' True False sample_state =
     Inr (Some 2, sample_state\<lparr>announced := [(''archive_opened'', Some 1)]\<rparr>)"
  proof -
    from openArchive_already_open[OF reg, of 0 sample_env True False] obtain i a where
      "i < length (open_archives sample_state)" "archive (open_archives sample_state ! i) = a"
      "a_filename (objs sample_state) a = ''e1m1.wad''"
      and r: "openArchive 0 sample_env ''e1m1.wad'' True False sample_state =
             Inr (Some a, sample_state\<lparr>announced := announced sample_state @
                    (if False then [] else [(''archive_opened'', Some (word_of_int (int i)))])\<rparr>)"
      by blast
    with pos[of i] have "i = 1" "a = 2" by auto
    with r ann show ?thesis by simp
  qed
  have quiet: "openArchive 0 sample_env ''e1m1.wad'' True True sample_state = Inr (Some 2, sample_state)"
  proof -
    from openArchive_already_open[OF reg, of 0 sample_env True True] obtain i a where
      "i < length (open_archives sample_state)" "archive (open_archives sample_state ! i) = a"
      "a_filename (objs sample_state) a = ''e1m1.wad''"
      and r: "openArchive 0 sample_env ''e1m1.wad'' True True sample_state =
             Inr (Some a, sample_state\<lparr>announced := announced sample_state @
                    (if True then [] else [(''archive_opened'', Some (word_of_int (int i)))])\<rparr>)"
      by blast
    with pos[of i] have "a = 2" by auto
    with r show ?thesis by simp
  qed
  from reg loud quiet show ?thesis by blast
qed

section \<open>Opens that fail\<close>

text \<open>
  Claim C3. An open that fails registers nothing. By path: when the path is not a
  directory, no open archive has that file name and no recogniser of the chain
  matches, \<^verbatim>\<open>openArchive\<close> returns null and only sets \<^verbatim>\<open>Global::error\<close> to the
  unsupported-format message; when the first matching recogniser's codec fails to
  parse, or the path is a directory and the directory codec fails, it returns null and
  the state is the one it found. By entry: the same two cases for an entry that no
  open archive was opened from, and a null entry returns null at once. In every case
  the registry, the Resource Index's calls and the table \<^verbatim>\<open>archive_file\<close> are untouched,
  since the whole state is, \<^verbatim>\<open>Global::error\<close> apart.
\<close>

theorem open_failure_registers_nothing:
  "(\<not> dirExists env fn \<and> getArchive s fn = None \<and>
      (\<forall>f \<in> set file_formats. \<not> isArchiveFile env f fn) \<longrightarrow>
      openArchive n env fn manage silent s =
        Inr (None, s\<lparr>global_error := ''Unsupported or invalid Archive format''\<rparr>)) \<and>
   (\<not> dirExists env fn \<and> getArchive s fn = None \<and> detect_file env fn = Some f \<and>
      openFile env f fn (objs s) = None \<longrightarrow>
      openArchive n env fn manage silent s = Inr (None, s)) \<and>
   (dirExists env fn \<and> getArchive s fn = None \<and> openFile env Dir fn (objs s) = None \<longrightarrow>
      openArchive n env fn manage silent s = Inr (None, s)) \<and>
   (openArchive_entry_find (objs s) (open_archives s) e = None \<and>
      detect_entry env (objs s) e = None \<longrightarrow>
      openArchive_entry n env (Some e) manage silent s =
        Inr (None, s\<lparr>global_error := ''Unsupported or invalid Archive format''\<rparr>)) \<and>
   (openArchive_entry_find (objs s) (open_archives s) e = None \<and>
      detect_entry env (objs s) e = Some g \<and> openEntry env g e (objs s) = None \<longrightarrow>
      openArchive_entry n env (Some e) manage silent s = Inr (None, s)) \<and>
   openArchive_entry n env None manage silent s = Inr (None, s)"
proof (intro conjI impI)
  assume a: "\<not> dirExists env fn \<and> getArchive s fn = None \<and>
      (\<forall>f \<in> set file_formats. \<not> isArchiveFile env f fn)"
  then have "detect_file env fn = None"
    by (simp add: detect_file_def find_None_iff)
  with a show "openArchive n env fn manage silent s =
        Inr (None, s\<lparr>global_error := ''Unsupported or invalid Archive format''\<rparr>)"
    by (simp add: openArchive_def)
next
  assume "\<not> dirExists env fn \<and> getArchive s fn = None \<and> detect_file env fn = Some f \<and>
      openFile env f fn (objs s) = None"
  then show "openArchive n env fn manage silent s = Inr (None, s)"
    by (simp add: openArchive_def)
next
  assume "dirExists env fn \<and> getArchive s fn = None \<and> openFile env Dir fn (objs s) = None"
  then show "openArchive n env fn manage silent s = Inr (None, s)"
    by (simp add: openArchive_def openDirArchive_def)
next
  assume "openArchive_entry_find (objs s) (open_archives s) e = None \<and>
      detect_entry env (objs s) e = None"
  then show "openArchive_entry n env (Some e) manage silent s =
        Inr (None, s\<lparr>global_error := ''Unsupported or invalid Archive format''\<rparr>)"
    by (simp add: openArchive_entry_start_def)
next
  assume "openArchive_entry_find (objs s) (open_archives s) e = None \<and>
      detect_entry env (objs s) e = Some g \<and> openEntry env g e (objs s) = None"
  then show "openArchive_entry n env (Some e) manage silent s = Inr (None, s)"
    by (simp add: openArchive_entry_start_def)
next
  show "openArchive_entry n env None manage silent s = Inr (None, s)" by simp
qed


theorem open_failure_registers_nothing_witness:
  "\<not> dirExists sample_env ''nope.bin'' \<and> getArchive sample_before ''nope.bin'' = None \<and>
   filter (\<lambda>f. isArchiveFile sample_env f ''nope.bin'') file_formats = [] \<and>
   openArchive 3 sample_env ''nope.bin'' True False sample_before =
     Inr (None, sample_before\<lparr>global_error := ''Unsupported or invalid Archive format''\<rparr>) \<and>
   getArchive sample_before ''a.zip'' = None \<and>
   detect_file sample_env_failing ''a.zip'' = Some Zip \<and>
   openFile sample_env_failing Zip ''a.zip'' (objs sample_before) = None \<and>
   openArchive 3 sample_env_failing ''a.zip'' True False sample_before = Inr (None, sample_before) \<and>
   openArchive_entry_find (objs sample_before) (open_archives sample_before) 22 = None \<and>
   detect_entry sample_env (objs sample_before) 22 = None \<and>
   openArchive_entry 3 sample_env (Some 22) True True sample_before =
     Inr (None, sample_before\<lparr>global_error := ''Unsupported or invalid Archive format''\<rparr>) \<and>
   openArchive_entry_find (objs sample_before) (open_archives sample_before) 21 = None \<and>
   detect_entry sample_env_failing (objs sample_before) 21 = Some Wad \<and>
   openEntry sample_env_failing Wad 21 (objs sample_before) = None \<and>
   openArchive_entry 3 sample_env_failing (Some 21) True True sample_before = Inr (None, sample_before)"
proof -
  have p1: "\<not> dirExists sample_env ''nope.bin''" "getArchive sample_before ''nope.bin'' = None"
    "filter (\<lambda>f. isArchiveFile sample_env f ''nope.bin'') file_formats = []"
    by (simp_all add: sample_env_def getArchive_def sample_before_def sample_state_def
        sample_objs_def file_formats_def)
  from p1(3) have p1': "\<forall>f \<in> set file_formats. \<not> isArchiveFile sample_env f ''nope.bin''"
    by (simp add: filter_empty_conv)
  have p2: "\<not> dirExists sample_env_failing ''a.zip''" "getArchive sample_before ''a.zip'' = None"
    "detect_file sample_env_failing ''a.zip'' = Some Zip"
    "openFile sample_env_failing Zip ''a.zip'' (objs sample_before) = None"
    by (simp_all add: sample_env_failing_def sample_env_def getArchive_def sample_before_def
        sample_state_def sample_objs_def detect_file_def file_formats_def)
  have e1: "openArchive_entry_find (objs sample_before) (open_archives sample_before) 22 = None"
    "detect_entry sample_env (objs sample_before) 22 = None"
    by (simp_all add: sample_env_def sample_before_def sample_state_def sample_objs_def
        detect_entry_def entry_formats_def)
  have e2: "openArchive_entry_find (objs sample_before) (open_archives sample_before) 21 = None"
    "detect_entry sample_env_failing (objs sample_before) 21 = Some Wad"
    "openEntry sample_env_failing Wad 21 (objs sample_before) = None"
    by (simp_all add: sample_env_failing_def sample_env_def sample_before_def sample_state_def
        sample_objs_def detect_entry_def entry_formats_def)
  note t1 = open_failure_registers_nothing[where env=sample_env and fn="''nope.bin''" and s=sample_before
      and f=Zip and n=3 and manage=True and silent=False and e=22 and g=Wad]
  note t2 = open_failure_registers_nothing[where env=sample_env_failing and fn="''a.zip''" and s=sample_before
      and f=Zip and n=3 and manage=True and silent=False and e=21 and g=Wad]
  note t3 = open_failure_registers_nothing[where env=sample_env and fn="''nope.bin''" and s=sample_before
      and f=Zip and n=3 and manage=True and silent=True and e=22 and g=Wad]
  note t4 = open_failure_registers_nothing[where env=sample_env_failing and fn="''a.zip''" and s=sample_before
      and f=Zip and n=3 and manage=True and silent=True and e=21 and g=Wad]
  from t1 p1(1,2) p1' have r1: "openArchive 3 sample_env ''nope.bin'' True False sample_before =
     Inr (None, sample_before\<lparr>global_error := ''Unsupported or invalid Archive format''\<rparr>)"
    by blast
  from t2 p2 have r2: "openArchive 3 sample_env_failing ''a.zip'' True False sample_before =
      Inr (None, sample_before)"
    by blast
  from t3 e1 have r3: "openArchive_entry 3 sample_env (Some 22) True True sample_before =
     Inr (None, sample_before\<lparr>global_error := ''Unsupported or invalid Archive format''\<rparr>)"
    by blast
  from t4 e2 have r4: "openArchive_entry 3 sample_env_failing (Some 21) True True sample_before =
      Inr (None, sample_before)"
    by blast
  from p1 p2(2,3,4) e1 e2 r1 r2 r3 r4 show ?thesis by blast
qed

section \<open>Clearing the base resource archive\<close>

text \<open>
  Claim C6, as amended. \<^verbatim>\<open>openBaseResource(index)\<close> first checks whether a base
  resource archive is loaded and \<open>base_resource\<close> already equals \<open>index\<close>: then it
  returns true and changes nothing. Otherwise, for a negative index (\<open>-1\<close> included) or
  an index whose base resource path is empty, it removes the loaded base resource
  archive (if any) from the Resource Index and drops it, sets \<open>base_resource\<close> to
  \<open>-1\<close>, announces \<^verbatim>\<open>base_resource_changed\<close> and returns false; \<^verbatim>\<open>Global::error\<close> is not
  touched, and \<^verbatim>\<open>getResourceEntry\<close> on the new state is the walk over the open
  archives alone.
\<close>

theorem openBaseResource_none:
  "(base_resource_archive s \<noteq> None \<and> base_resource s = index \<longrightarrow>
      openBaseResource env index s = (True, s)) \<and>
   (\<not> (base_resource_archive s \<noteq> None \<and> base_resource s = index) \<and>
    (index < 0 \<or> getBaseResourcePath env s (word_of_int index) = []) \<longrightarrow>
      openBaseResource env index s =
        (False, s\<lparr>base_resource_archive := None, base_resource := - 1,
                  resources_calls := resources_calls s @
                    (case base_resource_archive s of
                       Some b \<Rightarrow> [ResRemoveArchive b] | None \<Rightarrow> []),
                  announced := announced s @ [(''base_resource_changed'', None)]\<rparr>) \<and>
      global_error (snd (openBaseResource env index s)) = global_error s \<and>
      getResourceEntry (snd (openBaseResource env index s)) name ignore =
        getResourceEntry_loop (objs s) name ignore (open_archives s))"
proof (intro conjI impI)
  assume "base_resource_archive s \<noteq> None \<and> base_resource s = index"
  then show "openBaseResource env index s = (True, s)"
    by (simp add: openBaseResource_def)
next
  assume a: "\<not> (base_resource_archive s \<noteq> None \<and> base_resource s = index) \<and>
    (index < 0 \<or> getBaseResourcePath env s (word_of_int index) = [])"
  have path: "\<And>b. getBaseResourcePath env
       (resources_removeArchive b s\<lparr>base_resource_archive := None\<rparr>) (word_of_int index)
       = getBaseResourcePath env s (word_of_int index)"
    by (simp add: getBaseResourcePath_def resources_removeArchive_def)
  show r: "openBaseResource env index s =
        (False, s\<lparr>base_resource_archive := None, base_resource := - 1,
                  resources_calls := resources_calls s @
                    (case base_resource_archive s of
                       Some b \<Rightarrow> [ResRemoveArchive b] | None \<Rightarrow> []),
                  announced := announced s @ [(''base_resource_changed'', None)]\<rparr>)"
  proof (cases "base_resource_archive s")
    case None
    with a show ?thesis
      by (auto simp: openBaseResource_def Let_def announce_def)
  next
    case (Some b)
    with a path[of b] show ?thesis
      by (auto simp: openBaseResource_def Let_def announce_def resources_removeArchive_def)
  qed
  show "global_error (snd (openBaseResource env index s)) = global_error s"
    unfolding r by simp
  show "getResourceEntry (snd (openBaseResource env index s)) name ignore =
        getResourceEntry_loop (objs s) name ignore (open_archives s)"
    unfolding r by (simp add: getResourceEntry_def split: option.splits)
qed

theorem openBaseResource_none_witness:
  "\<not> (base_resource_archive sample_state \<noteq> None \<and> base_resource sample_state = - 1) \<and>
   openBaseResource sample_env (- 1) sample_state =
     (False, sample_state\<lparr>base_resource_archive := None, base_resource := - 1,
               resources_calls := [ResRemoveArchive 9],
               announced := [(''base_resource_changed'', None)]\<rparr>) \<and>
   getResourceEntry sample_state ''PLAYPAL'' (Some 2) = Some 91 \<and>
   getResourceEntry (snd (openBaseResource sample_env (- 1) sample_state)) ''PLAYPAL'' (Some 2) = None \<and>
   openBaseResource sample_env 0 sample_state = (True, sample_state)"
proof -
  have g: "\<not> (base_resource_archive sample_state \<noteq> None \<and> base_resource sample_state = - 1)"
    "base_resource_archive sample_state \<noteq> None \<and> base_resource sample_state = 0"
    by (simp_all add: sample_state_def)
  note t = openBaseResource_none[of sample_state "- 1" sample_env "''PLAYPAL''" "Some 2"]
  have neg: "(- 1 :: int) < 0" by simp
  from t g(1) neg have r: "openBaseResource sample_env (- 1) sample_state =
        (False, sample_state\<lparr>base_resource_archive := None, base_resource := - 1,
                  resources_calls := resources_calls sample_state @
                    (case base_resource_archive sample_state of
                       Some b \<Rightarrow> [ResRemoveArchive b] | None \<Rightarrow> []),
                  announced := announced sample_state @ [(''base_resource_changed'', None)]\<rparr>)"
    and q: "getResourceEntry (snd (openBaseResource sample_env (- 1) sample_state)) ''PLAYPAL'' (Some 2) =
        getResourceEntry_loop (objs sample_state) ''PLAYPAL'' (Some 2) (open_archives sample_state)"
    by blast+
  have r': "openBaseResource sample_env (- 1) sample_state =
     (False, sample_state\<lparr>base_resource_archive := None, base_resource := - 1,
               resources_calls := [ResRemoveArchive 9],
               announced := [(''base_resource_changed'', None)]\<rparr>)"
    unfolding r by (simp add: sample_state_def)
  have q': "getResourceEntry (snd (openBaseResource sample_env (- 1) sample_state)) ''PLAYPAL'' (Some 2) = None"
    unfolding q by (simp add: sample_state_def sample_objs_def)
  have b: "getResourceEntry sample_state ''PLAYPAL'' (Some 2) = Some 91"
    by (simp add: getResourceEntry_def sample_state_def sample_objs_def)
  from openBaseResource_none[of sample_state 0 sample_env "''PLAYPAL''" None] g(2)
  have a: "openBaseResource sample_env 0 sample_state = (True, sample_state)" by blast
  from g(1) r' b q' a show ?thesis by blast
qed

text \<open>
  The claim as stated fails where the guard applies: with a base resource archive
  loaded and \<open>base_resource\<close> equal to the requested index, the call returns true, the
  archive stays loaded and nothing is announced, for the index \<open>-1\<close> as for an index
  whose path is gone from the table.
\<close>

theorem openBaseResource_none_counterexample:
  "openBaseResource sample_env (- 1) (sample_state\<lparr>base_resource := - 1\<rparr>) =
     (True, sample_state\<lparr>base_resource := - 1\<rparr>) \<and>
   base_resource_archive (snd (openBaseResource sample_env (- 1) (sample_state\<lparr>base_resource := - 1\<rparr>)))
     = Some 9 \<and>
   announced (snd (openBaseResource sample_env (- 1) (sample_state\<lparr>base_resource := - 1\<rparr>))) = [] \<and>
   getBaseResourcePath sample_env (sample_state\<lparr>base_resource_path := []\<rparr>) 0 = [] \<and>
   openBaseResource sample_env 0 (sample_state\<lparr>base_resource_path := []\<rparr>) =
     (True, sample_state\<lparr>base_resource_path := []\<rparr>) \<and>
   base_resource_archive (snd (openBaseResource sample_env 0 (sample_state\<lparr>base_resource_path := []\<rparr>)))
     = Some 9"
  by (simp add: openBaseResource_def getBaseResourcePath_def sample_state_def sample_env_def)

section \<open>Pruning the bookmarks of a directory\<close>

lemma ancestor_walk_chain:
  "dir_chain n h r d = Some ch \<Longrightarrow> a_rootDir h a = Some r \<Longrightarrow> node \<noteq> r \<Longrightarrow> n < m \<Longrightarrow>
   ancestor_walk m h (Some a) node (Some d) = Inr (node \<in> set ch)"
proof (induction n arbitrary: d ch m)
  case 0
  then obtain m' where m: "m = Suc m'" by (cases m) auto
  from 0 have "d = r" "ch = [r]" by (auto split: if_splits)
  with 0 m show ?case by simp
next
  case (Suc n)
  then obtain m' where m: "m = Suc m'" "n < m'" by (cases m) auto
  show ?case
  proof (cases "d = r")
    case True
    with Suc.prems have "ch = [r]" by simp
    with True Suc.prems m show ?thesis by simp
  next
    case False
    with Suc.prems(1) obtain p ch' where p: "d_parent h d = Some p"
      "dir_chain n h r p = Some ch'" "ch = d # ch'"
      by (auto split: option.splits)
    from Suc.IH[OF p(2) Suc.prems(2,3) m(2)]
    have "ancestor_walk m' h (Some a) node (Some p) = Inr (node \<in> set ch')" .
    with False p m Suc.prems(2) show ?thesis by auto
  qed
qed

lemma erase_at_filter:
  "a < length bs \<Longrightarrow> Q (bs ! a) \<Longrightarrow>
   filter (\<lambda>w. \<not> Q w) (drop a (take a bs @ drop (Suc a) bs)) = filter (\<lambda>w. \<not> Q w) (drop a bs)"
proof -
  assume a: "a < length bs" and q: "Q (bs ! a)"
  have "drop a (take a bs @ drop (Suc a) bs) = drop (Suc a) bs" using a by simp
  moreover have "drop a bs = bs ! a # drop (Suc a) bs" using a by (simp add: Cons_nth_drop_Suc)
  ultimately show ?thesis using q by simp
qed

lemma deleteBookmarksInDir_loop_filter:
  assumes "\<forall>w \<in> set (drop a bs). \<forall>b. lock_entry h w = Some b \<and> e_parent h b = ar \<longrightarrow>
             ancestor_walk n h ar node (e_parentDir h b) = Inr (W b)"
  shows "deleteBookmarksInDir_loop n h ar node a bs removed =
           Inr (take a bs @ filter (\<lambda>w. \<not> (case lock_entry h w of None \<Rightarrow> True
                                              | Some b \<Rightarrow> e_parent h b = ar \<and> W b)) (drop a bs),
                removed \<or> (\<exists>w \<in> set (drop a bs). (case lock_entry h w of None \<Rightarrow> True
                                              | Some b \<Rightarrow> e_parent h b = ar \<and> W b)))"
  using assms
proof (induction n h ar node a bs removed rule: deleteBookmarksInDir_loop.induct)
  case (1 n h ar node a bs removed)
  let ?Q = "\<lambda>w. (case lock_entry h w of None \<Rightarrow> True | Some b \<Rightarrow> e_parent h b = ar \<and> W b)"
  show ?case
  proof (cases "a < length bs")
    case False
    then show ?thesis by (simp add: deleteBookmarksInDir_loop.simps[of n h ar node a bs])
  next
    case True
    then have dr: "drop a bs = bs ! a # drop (Suc a) bs" by (simp add: Cons_nth_drop_Suc)
    have de: "drop a (take a bs @ drop (Suc a) bs) = drop (Suc a) bs" using True by simp
    have tk: "take a (take a bs @ drop (Suc a) bs) = take a bs" using True by simp
    have rest: "\<forall>w \<in> set (drop (Suc a) bs). \<forall>b. lock_entry h w = Some b \<and> e_parent h b = ar \<longrightarrow>
             ancestor_walk n h ar node (e_parentDir h b) = Inr (W b)"
      using "1.prems" dr by simp
    have rest': "\<forall>w \<in> set (drop a (take a bs @ drop (Suc a) bs)).
             \<forall>b. lock_entry h w = Some b \<and> e_parent h b = ar \<longrightarrow>
             ancestor_walk n h ar node (e_parentDir h b) = Inr (W b)"
      using rest unfolding de .
    have tk2: "take (Suc a) bs = take a bs @ [bs ! a]" using True by (simp add: take_Suc_conv_app_nth)
    show ?thesis
    proof (cases "lock_entry h (bs ! a)")
      case None
      from "1.IH"(1)[OF True None rest', unfolded tk de]
      have "deleteBookmarksInDir_loop n h ar node a (take a bs @ drop (Suc a) bs) True =
          Inr (take a bs @ filter (\<lambda>w. \<not> ?Q w) (drop (Suc a) bs), True)"
        by simp
      with True None dr show ?thesis
        by (simp add: deleteBookmarksInDir_loop.simps[of n h ar node a bs])
    next
      case (Some b)
      show ?thesis
      proof (cases "e_parent h b = ar")
        case False
        from "1.IH"(4)[OF True Some False rest]
        have "deleteBookmarksInDir_loop n h ar node (Suc a) bs removed =
          Inr (take (Suc a) bs @ filter (\<lambda>w. \<not> ?Q w) (drop (Suc a) bs),
               removed \<or> (\<exists>w \<in> set (drop (Suc a) bs). ?Q w))"
          by simp
        with True Some False dr tk2 show ?thesis
          by (simp add: deleteBookmarksInDir_loop.simps[of n h ar node a bs])
      next
        case par: True
        from "1.prems" dr Some par
        have walk: "ancestor_walk n h ar node (e_parentDir h b) = Inr (W b)" by simp
        show ?thesis
        proof (cases "W b")
          case wt: True
          from "1.IH"(2)[OF True Some par walk wt rest', unfolded tk de]
          have "deleteBookmarksInDir_loop n h ar node a (take a bs @ drop (Suc a) bs) True =
              Inr (take a bs @ filter (\<lambda>w. \<not> ?Q w) (drop (Suc a) bs), True)"
            by simp
          with True Some par walk wt dr show ?thesis
            by (simp add: deleteBookmarksInDir_loop.simps[of n h ar node a bs])
        next
          case wf: False
          from "1.IH"(3)[OF True Some par walk wf rest]
          have "deleteBookmarksInDir_loop n h ar node (Suc a) bs removed =
            Inr (take (Suc a) bs @ filter (\<lambda>w. \<not> ?Q w) (drop (Suc a) bs),
                 removed \<or> (\<exists>w \<in> set (drop (Suc a) bs). ?Q w))"
            by simp
          with True Some par walk wf dr tk2 show ?thesis
            by (simp add: deleteBookmarksInDir_loop.simps[of n h ar node a bs])
        qed
      qed
    qed
  qed
qed

lemma deleteBookmark_loop_None:
  "(deleteBookmark_loop h bs entry = None) = (entry \<notin> lock_entry h ` set bs)"
  by (induction bs) (auto split: option.splits)

lemma deleteBookmark_loop_Some:
  "deleteBookmark_loop h bs entry = Some bs' \<Longrightarrow>
   \<exists>xs w ys. bs = xs @ w # ys \<and> lock_entry h w = entry \<and> bs' = xs @ ys"
proof (induction bs arbitrary: bs')
  case Nil
  then show ?case by simp
next
  case (Cons b bs)
  show ?case
  proof (cases "lock_entry h b = entry")
    case True
    with Cons.prems have "b # bs = [] @ b # bs \<and> lock_entry h b = entry \<and> bs' = [] @ bs"
      by simp
    then show ?thesis by blast
  next
    case False
    with Cons.prems obtain r where r: "deleteBookmark_loop h bs entry = Some r" "bs' = b # r"
      by (auto split: option.splits)
    from Cons.IH[OF r(1)] obtain xs w ys where
      "bs = xs @ w # ys" "lock_entry h w = entry" "r = xs @ ys" by blast
    with r(2) have "b # bs = (b # xs) @ w # ys \<and> lock_entry h w = entry \<and> bs' = (b # xs) @ ys"
      by simp
    then show ?thesis by blast
  qed
qed

lemma lock_entry_SomeD: "lock_entry h w = Some b \<Longrightarrow> w = Some b \<and> e_live h b"
  by (auto simp: lock_entry_def split: option.splits if_splits)

text \<open>
  Below the root. For a directory \<open>node\<close> that is not the root directory of its
  archive, \<^verbatim>\<open>deleteBookmarksInDir(node)\<close> removes exactly these bookmarks: every
  bookmark whose weak pointer no longer resolves, the bookmark of \<open>node\<close>'s own
  directory entry, and every bookmark of a live entry of \<open>node\<close>'s archive whose
  ancestor-directory chain passes through \<open>node\<close>. All other bookmarks (entries in
  sibling directories, entries of other archives) stay, in their order. It returns
  whether it removed any, announcing \<^verbatim>\<open>bookmarks_changed\<close> once for the directory
  entry and once at the end. The bookmark list is taken to hold no entry twice (which
  \<^verbatim>\<open>addBookmark\<close> maintains) and the chains of the archive's bookmarked entries to
  reach the root within \<open>n\<close> steps; any fuel above \<open>n\<close> is enough for the walk.
\<close>

lemma deleteBookmarksInDir_below_root:
  assumes ar: "d_archive (objs s) node = Some a"
    and root: "a_rootDir (objs s) a = Some r"
    and nr: "node \<noteq> r"
    and tree: "chains_reach_root n (objs s) a r (bookmarks s)"
    and dist: "distinct (bookmarks s)"
    and fuel: "n < m"
  shows "deleteBookmarksInDir m node s =
     Inr (\<exists>w \<in> set (bookmarks s). pruned_by_dir n (objs s) a r node w,
          s\<lparr>bookmarks := filter (\<lambda>w. \<not> pruned_by_dir n (objs s) a r node w) (bookmarks s),
            announced := announced s @
              (if d_dirEntry (objs s) node \<in> lock_entry (objs s) ` set (bookmarks s)
               then [(''bookmarks_changed'', None)] else []) @
              (if \<exists>w \<in> set (bookmarks s). pruned_by_dir n (objs s) a r node w
               then [(''bookmarks_changed'', None)] else [])\<rparr>)"
proof -
  let ?h = "objs s"
  let ?de = "d_dirEntry ?h node"
  let ?W = "under_dir n ?h r node"
  let ?Q = "\<lambda>w. (case lock_entry ?h w of None \<Rightarrow> True
                  | Some b \<Rightarrow> e_parent ?h b = Some a \<and> ?W b)"
  let ?P = "pruned_by_dir n ?h a r node"
  have walk: "\<And>w b. w \<in> set (bookmarks s) \<Longrightarrow> lock_entry ?h w = Some b \<Longrightarrow>
      e_parent ?h b = Some a \<Longrightarrow>
      ancestor_walk m ?h (Some a) node (e_parentDir ?h b) = Inr (?W b)"
  proof -
    fix w b assume w: "w \<in> set (bookmarks s)" and l: "lock_entry ?h w = Some b"
      and p: "e_parent ?h b = Some a"
    from lock_entry_SomeD[OF l] w have "Some b \<in> set (bookmarks s)" "e_live ?h b" by auto
    with tree p obtain d ch where d: "e_parentDir ?h b = Some d" "dir_chain n ?h r d = Some ch"
      unfolding chains_reach_root_def by blast
    from ancestor_walk_chain[OF d(2) root nr fuel] d
    show "ancestor_walk m ?h (Some a) node (e_parentDir ?h b) = Inr (?W b)"
      by (simp add: under_dir_def)
  qed
  have PQ: "\<And>w. ?P w = (?Q w \<or> (\<exists>b. lock_entry ?h w = Some b \<and> Some b = ?de))"
    by (auto simp: pruned_by_dir_def split: option.splits)
  show ?thesis
  proof (cases "deleteBookmark_loop ?h (bookmarks s) ?de")
    case None
    then have nd: "?de \<notin> lock_entry ?h ` set (bookmarks s)"
      by (simp add: deleteBookmark_loop_None)
    have same: "\<And>w. w \<in> set (bookmarks s) \<Longrightarrow> ?P w = ?Q w"
    proof -
      fix w assume w: "w \<in> set (bookmarks s)"
      with nd have "\<not> (\<exists>b. lock_entry ?h w = Some b \<and> Some b = ?de)" by force
      with PQ[of w] show "?P w = ?Q w" by simp
    qed
    have pre: "\<forall>w \<in> set (drop 0 (bookmarks s)). \<forall>b. lock_entry ?h w = Some b \<and>
        e_parent ?h b = Some a \<longrightarrow>
        ancestor_walk m ?h (Some a) node (e_parentDir ?h b) = Inr (?W b)"
      using walk by simp
    from deleteBookmarksInDir_loop_filter[OF pre, of False]
    have loop: "deleteBookmarksInDir_loop m ?h (Some a) node 0 (bookmarks s) False =
        Inr (filter (\<lambda>w. \<not> ?Q w) (bookmarks s), \<exists>w \<in> set (bookmarks s). ?Q w)"
      by simp
    have f: "filter (\<lambda>w. \<not> ?Q w) (bookmarks s) = filter (\<lambda>w. \<not> ?P w) (bookmarks s)"
      using same by (intro filter_cong) auto
    have e: "(\<exists>w \<in> set (bookmarks s). ?Q w) = (\<exists>w \<in> set (bookmarks s). ?P w)"
      using same by auto
    from None nd loop show ?thesis
      unfolding deleteBookmarksInDir_def deleteBookmark_def Let_def ar f e
      by (simp add: announce_def)
  next
    case (Some bs1)
    then have dd: "?de \<in> lock_entry ?h ` set (bookmarks s)"
      using deleteBookmark_loop_None[of ?h "bookmarks s" ?de] by auto
    from deleteBookmark_loop_Some[OF Some] obtain xs w0 ys where
      sp: "bookmarks s = xs @ w0 # ys" "lock_entry ?h w0 = ?de" "bs1 = xs @ ys" by blast
    from dist sp(1) have w0n: "w0 \<notin> set xs" "w0 \<notin> set ys" by auto
    have Pw0: "?P w0"
      using sp(2) by (auto simp: pruned_by_dir_def split: option.splits)
    have same: "\<And>w. w \<in> set bs1 \<Longrightarrow> ?P w = ?Q w"
    proof -
      fix w assume w: "w \<in> set bs1"
      have "\<not> (\<exists>b. lock_entry ?h w = Some b \<and> Some b = ?de)"
      proof
        assume "\<exists>b. lock_entry ?h w = Some b \<and> Some b = ?de"
        then obtain b where b: "lock_entry ?h w = Some b" "Some b = ?de" by blast
        with sp(2) have "lock_entry ?h w0 = Some b" by simp
        with b(1) have "w = w0" by (auto dest!: lock_entry_SomeD)
        with w sp(3) w0n show False by auto
      qed
      with PQ[of w] show "?P w = ?Q w" by simp
    qed
    have sub: "set bs1 \<subseteq> set (bookmarks s)" using sp by auto
    have pre: "\<forall>w \<in> set (drop 0 bs1). \<forall>b. lock_entry ?h w = Some b \<and>
        e_parent ?h b = Some a \<longrightarrow>
        ancestor_walk m ?h (Some a) node (e_parentDir ?h b) = Inr (?W b)"
      using walk sub by auto
    from deleteBookmarksInDir_loop_filter[OF pre, of True]
    have loop: "deleteBookmarksInDir_loop m ?h (Some a) node 0 bs1 True =
        Inr (filter (\<lambda>w. \<not> ?Q w) bs1, True)"
      by simp
    have f1: "filter (\<lambda>w. \<not> ?Q w) bs1 = filter (\<lambda>w. \<not> ?P w) bs1"
      using same by (intro filter_cong) auto
    have f2: "filter (\<lambda>w. \<not> ?P w) bs1 = filter (\<lambda>w. \<not> ?P w) (bookmarks s)"
      using sp Pw0 by simp
    have e: "\<exists>w \<in> set (bookmarks s). ?P w" using sp(1) Pw0 by auto
    from Some dd loop e show ?thesis
      unfolding deleteBookmarksInDir_def deleteBookmark_def Let_def ar
      by (simp add: announce_def f1 f2)
  qed
qed

lemma deleteBookmarksInDir_below_root_sample:
  "d_archive (objs sample_marks) 11 = Some 1 \<and> a_rootDir (objs sample_marks) 1 = Some 10 \<and>
   chains_reach_root 2 (objs sample_marks) 1 10 (bookmarks sample_marks) \<and>
   distinct (bookmarks sample_marks) \<and>
   deleteBookmarksInDir 3 11 sample_marks =
     Inr (True, sample_marks\<lparr>bookmarks := [Some 22, Some 31],
            announced := [(''bookmarks_changed'', None), (''bookmarks_changed'', None)]\<rparr>)"
proof -
  have two: "(2::nat) = Suc (Suc 0)" by simp
  have ar: "d_archive (objs sample_marks) 11 = Some 1"
    and root: "a_rootDir (objs sample_marks) 1 = Some 10"
    and dist: "distinct (bookmarks sample_marks)"
    by (simp_all add: sample_marks_def sample_state_def sample_objs_def)
  have tree: "chains_reach_root 2 (objs sample_marks) 1 10 (bookmarks sample_marks)"
    unfolding chains_reach_root_def two
    by (auto simp: sample_marks_def sample_state_def sample_objs_def)
  have nr: "(11::nat) \<noteq> 10" and fuel: "(2::nat) < 3" by simp_all
  have flt: "filter (\<lambda>w. \<not> pruned_by_dir 2 (objs sample_marks) 1 10 11 w) (bookmarks sample_marks)
      = [Some 22, Some 31]"
    unfolding two
    by (simp add: pruned_by_dir_def under_dir_def lock_entry_def sample_marks_def
        sample_state_def sample_objs_def)
  have ex: "\<exists>w \<in> set (bookmarks sample_marks). pruned_by_dir 2 (objs sample_marks) 1 10 11 w"
    unfolding two
    by (simp add: pruned_by_dir_def under_dir_def lock_entry_def sample_marks_def
        sample_state_def sample_objs_def)
  have de: "d_dirEntry (objs sample_marks) 11 \<in> lock_entry (objs sample_marks) ` set (bookmarks sample_marks)"
    by (simp add: lock_entry_def sample_marks_def sample_state_def sample_objs_def)
  have ann: "announced sample_marks = []" by (simp add: sample_marks_def sample_state_def)
  have res: "deleteBookmarksInDir 3 11 sample_marks =
     Inr (True, sample_marks\<lparr>bookmarks := [Some 22, Some 31],
            announced := [(''bookmarks_changed'', None), (''bookmarks_changed'', None)]\<rparr>)"
    unfolding deleteBookmarksInDir_below_root[OF ar root nr tree dist fuel] flt
      eqTrueI[OF ex] eqTrueI[OF de] ann
    by simp
  from ar root tree dist res show ?thesis by blast
qed

text \<open>
  Claim C9 (\<^verbatim>\<open>deleteBookmarksInDir\<close> removes the bookmark of the directory's own entry,
  every bookmark of an entry whose ancestor-directory chain passes through the
  directory, and every unresolved bookmark, and leaves the others). At the root
  directory of an archive the code does not do this. The walk
  \<^verbatim>\<open>while (anode != archive->rootDir().get() && !remove)\<close> stops when it reaches the
  root, before it compares the root with \<open>node\<close>, so no entry counts as lying in or
  under the root. In the sample session the entries 22, 23 and 111 are bookmarked,
  live in the archive 1, and their chains \<open>[12, 10]\<close>, \<open>[13, 11, 10]\<close> and \<open>[10]\<close> pass
  through the root 10 (the entry 111 lies in the root directory itself), so the claim
  has all three removed; yet \<^verbatim>\<open>deleteBookmarksInDir\<close> of the root removes nothing and
  returns false.
\<close>

theorem deleteBookmarksInDir_root_keeps_all:
  "d_archive (objs sample_state) 10 = Some 1 \<and> a_rootDir (objs sample_state) 1 = Some 10 \<and>
   bookmarks sample_state = [Some 22, Some 31, Some 41, Some 51, Some 23, Some 111] \<and>
   dir_chain 2 (objs sample_state) 10 12 = Some [12, 10] \<and>
   dir_chain 2 (objs sample_state) 10 13 = Some [13, 11, 10] \<and>
   dir_chain 2 (objs sample_state) 10 10 = Some [10] \<and>
   pruned_by_dir 2 (objs sample_state) 1 10 10 (Some 22) \<and>
   pruned_by_dir 2 (objs sample_state) 1 10 10 (Some 23) \<and>
   pruned_by_dir 2 (objs sample_state) 1 10 10 (Some 111) \<and>
   deleteBookmarksInDir 3 10 sample_state = Inr (False, sample_state)"
proof -
  have three: "(3::nat) = Suc (Suc (Suc 0))" and two: "(2::nat) = Suc (Suc 0)" by simp_all
  show ?thesis
    unfolding three two
    by (simp add: deleteBookmarksInDir_def deleteBookmark_def lock_entry_def
        pruned_by_dir_def under_dir_def
        deleteBookmarksInDir_loop.simps sample_state_def sample_objs_def)
qed

section \<open>Closing an archive with its nested archives\<close>

lemma erase_eq_filter:
  "distinct (map archive R) \<Longrightarrow> i < length R \<Longrightarrow>
   take i R @ drop (Suc i) R = filter (\<lambda>r. archive r \<noteq> archive (R ! i)) R"
proof (induction R arbitrary: i)
  case Nil
  then show ?case by simp
next
  case (Cons r R)
  show ?case
  proof (cases i)
    case 0
    from Cons.prems have "archive r \<notin> archive ` set R" by simp
    then have "\<forall>q \<in> set R. archive q \<noteq> archive r" by (metis imageI)
    then have "filter (\<lambda>q. archive q \<noteq> archive r) R = R" by (simp add: filter_id_conv)
    with 0 show ?thesis by simp
  next
    case (Suc k)
    with Cons.prems have k: "k < length R" "distinct (map archive R)" by auto
    from Cons.prems Suc k have "archive r \<noteq> archive (R ! k)" by (auto simp: image_iff)
    with Cons.IH[OF k(2) k(1)] Suc show ?thesis by simp
  qed
qed

lemma update_eq_map:
  "distinct (map archive R) \<Longrightarrow> i < length R \<Longrightarrow> archive (f (R ! i)) = archive (R ! i) \<Longrightarrow>
   R[i := f (R ! i)] = map (\<lambda>r. if archive r = archive (R ! i) then f r else r) R"
proof (induction R arbitrary: i)
  case Nil
  then show ?case by simp
next
  case (Cons r R)
  show ?case
  proof (cases i)
    case 0
    from Cons.prems have "archive r \<notin> archive ` set R" by simp
    then have "\<forall>q \<in> set R. archive q \<noteq> archive r" by (metis imageI)
    then have "map (\<lambda>q. if archive q = archive r then f q else q) R = R"
      by (simp add: map_idI)
    with 0 show ?thesis by simp
  next
    case (Suc k)
    with Cons.prems have k: "k < length R" "distinct (map archive R)"
      "archive (f (R ! k)) = archive (R ! k)" by auto
    from Cons.prems Suc k have "archive r \<noteq> archive (R ! k)" by (auto simp: image_iff)
    with Cons.IH[OF k(2) k(1) k(3)] Suc show ?thesis by simp
  qed
qed

lemma filter_keeps_prefix:
  "\<forall>r \<in> set (take k R). P r \<Longrightarrow> filter P R = take k R @ filter P (drop k R)"
proof -
  assume a: "\<forall>r \<in> set (take k R). P r"
  have "filter P R = filter P (take k R) @ filter P (drop k R)"
    by (metis append_take_drop_id filter_append)
  moreover have "filter P (take k R) = take k R" using a by (simp add: filter_id_conv)
  ultimately show ?thesis by simp
qed

lemma follow_from_iff:
  "follow_from seen R =
     (\<forall>i<length R. set (open_children (R ! i)) \<inter> (seen \<union> archive ` set (take (Suc i) R)) = {})"
proof (induction R arbitrary: seen)
  case Nil
  then show ?case by simp
next
  case (Cons r R)
  have un: "\<And>S. seen \<union> insert (archive r) S = insert (archive r) seen \<union> S" by auto
  show ?case
    by (simp add: All_less_Suc2 Cons.IH[of "insert (archive r) seen"] un)
qed

lemma children_follow_iff: "distinct (map archive R) \<Longrightarrow> children_follow R = follow_from {} R"
proof -
  assume d: "distinct (map archive R)"
  have "children_follow R =
     (\<forall>i<length R. set (open_children (R ! i)) \<inter> archive ` set (take (Suc i) R) = {})"
  proof
    assume cf: "children_follow R"
    show "\<forall>i<length R. set (open_children (R ! i)) \<inter> archive ` set (take (Suc i) R) = {}"
    proof (intro allI impI, rule ccontr)
      fix i assume i: "i < length R"
        and ne: "set (open_children (R ! i)) \<inter> archive ` set (take (Suc i) R) \<noteq> {}"
      then obtain q where q: "q \<in> set (take (Suc i) R)" "archive q \<in> set (open_children (R ! i))"
        by auto
      from q(1) obtain j where j: "j < Suc i" "j < length R" "q = R ! j"
        by (auto simp: in_set_conv_nth)
      with cf i q(2) have "i < j" unfolding children_follow_def by blast
      with j show False by simp
    qed
  next
    assume p: "\<forall>i<length R. set (open_children (R ! i)) \<inter> archive ` set (take (Suc i) R) = {}"
    show "children_follow R"
      unfolding children_follow_def
    proof (intro allI impI, rule ccontr)
      fix i j assume i: "i < length R" and j: "j < length R"
        and m: "archive (R ! j) \<in> set (open_children (R ! i))" and n: "\<not> i < j"
      then have "R ! j \<in> set (take (Suc i) R)"
        by (auto simp: in_set_conv_nth intro!: exI[of _ j])
      with p i m show False by blast
    qed
  qed
  then show ?thesis by (simp add: follow_from_iff)
qed

lemma deleteBookmarksInArchive_loop_filter:
  "deleteBookmarksInArchive_loop h ar a bs removed =
     (take a bs @ filter (\<lambda>w. \<not> (case lock_entry h w of None \<Rightarrow> True
                                     | Some b \<Rightarrow> e_parent h b = ar)) (drop a bs),
      removed \<or> (\<exists>w \<in> set (drop a bs). (case lock_entry h w of None \<Rightarrow> True
                                     | Some b \<Rightarrow> e_parent h b = ar)))"
proof (induction h ar a bs removed rule: deleteBookmarksInArchive_loop.induct)
  case (1 h ar a bs removed)
  let ?Q = "\<lambda>w. (case lock_entry h w of None \<Rightarrow> True | Some b \<Rightarrow> e_parent h b = ar)"
  show ?case
  proof (cases "a < length bs")
    case False
    then show ?thesis by (simp add: deleteBookmarksInArchive_loop.simps[of h ar a bs])
  next
    case True
    then have dr: "drop a bs = bs ! a # drop (Suc a) bs" by (simp add: Cons_nth_drop_Suc)
    have de: "drop a (take a bs @ drop (Suc a) bs) = drop (Suc a) bs" using True by simp
    have tk: "take a (take a bs @ drop (Suc a) bs) = take a bs" using True by simp
    have tk2: "take (Suc a) bs = take a bs @ [bs ! a]" using True by (simp add: take_Suc_conv_app_nth)
    show ?thesis
    proof (cases "lock_entry h (bs ! a)")
      case None
      from "1.IH"(1)[OF True None, unfolded tk de]
      have "deleteBookmarksInArchive_loop h ar a (take a bs @ drop (Suc a) bs) True =
          (take a bs @ filter (\<lambda>w. \<not> ?Q w) (drop (Suc a) bs), True)"
        by simp
      with True None dr show ?thesis
        by (simp add: deleteBookmarksInArchive_loop.simps[of h ar a bs])
    next
      case (Some b)
      show ?thesis
      proof (cases "e_parent h b = ar")
        case False
        from "1.IH"(3)[OF True Some False]
        have "deleteBookmarksInArchive_loop h ar (Suc a) bs removed =
          (take (Suc a) bs @ filter (\<lambda>w. \<not> ?Q w) (drop (Suc a) bs),
               removed \<or> (\<exists>w \<in> set (drop (Suc a) bs). ?Q w))"
          by simp
        with True Some False dr tk2 show ?thesis
          by (simp add: deleteBookmarksInArchive_loop.simps[of h ar a bs])
      next
        case par: True
        from "1.IH"(2)[OF True Some par, unfolded tk de]
        have "deleteBookmarksInArchive_loop h ar a (take a bs @ drop (Suc a) bs) True =
            (take a bs @ filter (\<lambda>w. \<not> ?Q w) (drop (Suc a) bs), True)"
          by simp
        with True Some par dr show ?thesis
          by (simp add: deleteBookmarksInArchive_loop.simps[of h ar a bs])
      qed
    qed
  qed
qed

lemma deleteBookmarksInArchive_state:
  "objs (snd (deleteBookmarksInArchive (Some a) s)) = objs s \<and>
   open_archives (snd (deleteBookmarksInArchive (Some a) s)) = open_archives s \<and>
   bookmarks (snd (deleteBookmarksInArchive (Some a) s)) =
     filter (\<lambda>w. \<not> in_archive (objs s) a w) (bookmarks s)"
  by (simp add: deleteBookmarksInArchive_def deleteBookmarksInArchive_loop_filter
      in_archive_def announce_def)

lemma closeArchive_begin_state:
  "fst (closeArchive_begin index s) = open_children (open_archives s ! nat index) \<and>
   objs (snd (closeArchive_begin index s)) = objs s \<and>
   open_archives (snd (closeArchive_begin index s)) =
     (open_archives s)[nat index := (open_archives s ! nat index)\<lparr>open_children := []\<rparr>] \<and>
   bookmarks (snd (closeArchive_begin index s)) =
     filter (\<lambda>w. \<not> in_archive (objs s) (archive (open_archives s ! nat index)) w) (bookmarks s)"
  by (simp add: closeArchive_begin_def Let_def announce_def resources_removeArchive_def
      deleteBookmarksInArchive_state)

lemma archive_drop_children [simp]: "archive (drop_children X r) = archive r"
  by (simp add: drop_children_def)

lemma children_drop_children [simp]:
  "open_children (drop_children X r) = filter (\<lambda>k. k \<notin> X) (open_children r)"
  by (simp add: drop_children_def)

lemma resource_drop_children [simp]: "resource (drop_children X r) = resource r"
  by (simp add: drop_children_def)

lemma drop_children_empty [simp]: "drop_children {} r = r"
  by (simp add: drop_children_def)

lemma drop_children_twice [simp]:
  "drop_children Y (drop_children X r) = drop_children (X \<union> Y) r"
  by (simp add: drop_children_def conj_commute)

lemma drop_children_id: "set (open_children r) \<inter> X = {} \<Longrightarrow> drop_children X r = r"
proof -
  assume "set (open_children r) \<inter> X = {}"
  then have "filter (\<lambda>k. k \<notin> X) (open_children r) = open_children r"
    by (simp add: filter_id_conv disjoint_iff)
  then show ?thesis by (simp add: drop_children_def)
qed

lemma registry_without_empty [simp]: "registry_without {} R = R"
  by (simp add: registry_without_def map_idI)

lemma registry_without_twice:
  "registry_without Y (registry_without X R) = registry_without (X \<union> Y) R"
  by (simp add: registry_without_def filter_map o_def conj_commute)

lemma map_archive_registry_without:
  "map archive (registry_without X R) = filter (\<lambda>a. a \<notin> X) (map archive R)"
  by (simp add: registry_without_def filter_map o_def)

lemma set_archive_registry_without:
  "archive ` set (registry_without X R) = archive ` set R - X"
proof -
  have "archive ` set (registry_without X R) = set (map archive (registry_without X R))"
    by simp
  also have "\<dots> = set (map archive R) - X"
    unfolding map_archive_registry_without by auto
  finally show ?thesis by simp
qed

lemma length_registry_without: "length (registry_without X R) \<le> length R"
  by (simp add: registry_without_def)

lemma registry_without_prefix:
  assumes "X \<inter> archive ` set (take k R) = {}"
  shows "take k (registry_without X R) = map (drop_children X) (take k R)"
proof -
  from assms have "\<forall>r \<in> set (take k R). archive r \<notin> X" by blast
  from filter_keeps_prefix[of k R "\<lambda>r. archive r \<notin> X", OF this]
  have "registry_without X R =
      map (drop_children X) (take k R) @ map (drop_children X) (filter (\<lambda>r. archive r \<notin> X) (drop k R))"
    by (simp add: registry_without_def)
  then have "take k (registry_without X R) =
      take k (map (drop_children X) (take k R) @
        map (drop_children X) (filter (\<lambda>r. archive r \<notin> X) (drop k R)))"
    by simp
  also have "\<dots> = map (drop_children X) (take k R)"
    by (simp add: min_def)
  finally show ?thesis .
qed

lemma registry_without_update:
  "i < length R \<Longrightarrow> archive (R ! i) \<in> X \<Longrightarrow> archive r' = archive (R ! i) \<Longrightarrow>
   registry_without X (R[i := r']) = registry_without X R"
proof (induction R arbitrary: i)
  case Nil
  then show ?case by simp
next
  case (Cons r R)
  show ?case
  proof (cases i)
    case 0
    with Cons.prems show ?thesis by (simp add: registry_without_def)
  next
    case (Suc k)
    with Cons.prems Cons.IH[of k] show ?thesis by (simp add: registry_without_def)
  qed
qed

lemma follow_from_registry_without:
  "follow_from seen R \<Longrightarrow> seen' \<subseteq> seen \<Longrightarrow> follow_from seen' (registry_without X R)"
proof (induction R arbitrary: seen seen')
  case Nil
  then show ?case by (simp add: registry_without_def)
next
  case (Cons r R)
  from Cons.prems have a: "set (open_children r) \<inter> insert (archive r) seen = {}"
    and b: "follow_from (insert (archive r) seen) R" by simp_all
  show ?case
  proof (cases "archive r \<in> X")
    case True
    from Cons.prems(2) have "seen' \<subseteq> insert (archive r) seen" by auto
    from Cons.IH[OF b this] True show ?thesis by (simp add: registry_without_def)
  next
    case False
    from Cons.prems(2) have "insert (archive r) seen' \<subseteq> insert (archive r) seen" by auto
    from Cons.IH[OF b this]
    have "follow_from (insert (archive r) seen') (registry_without X R)" .
    moreover from a Cons.prems(2)
    have "set (filter (\<lambda>k. k \<notin> X) (open_children r)) \<inter> insert (archive r) seen' = {}"
      by auto
    ultimately show ?thesis using False by (simp add: registry_without_def)
  qed
qed

lemma heap_rel_refl: "heap_rel {} h h"
  by (simp add: heap_rel_def)

lemma heap_rel_trans:
  "heap_rel X h h' \<Longrightarrow> heap_rel Y h' h'' \<Longrightarrow> heap_rel (X \<union> Y) h h''"
  unfolding heap_rel_def by (simp add: image_Un)

lemma heap_rel_same: "heap_rel X h h"
  by (simp add: heap_rel_def)

lemma in_archives_empty [simp]: "in_archives {} h w = False"
  by (simp add: in_archives_def split: option.splits)

lemma in_archives_single: "in_archives {x} h w = in_archive h x w"
  by (simp add: in_archives_def in_archive_def split: option.splits)

lemma heap_rel_lock:
  assumes "heap_rel X h h'" and "\<not> in_archives X h w"
  shows "in_archives Y h' w = in_archives (X \<union> Y) h w"
proof (cases "X = {}")
  case True
  with assms(1) have "\<And>e. e_parent h' e = e_parent h e" "\<And>e. e_live h' e = e_live h e"
    by (simp_all add: heap_rel_def)
  then show ?thesis using True
    by (simp add: in_archives_def lock_entry_def split: option.splits)
next
  case False
  with assms(2) obtain b where b: "lock_entry h w = Some b" "e_parent h b \<notin> Some ` X"
    by (auto simp: in_archives_def split: option.splits)
  then have w: "w = Some b" "e_live h b"
    by (auto simp: lock_entry_def split: option.splits if_splits)
  from assms(1) b(2) have "e_parent h' b = e_parent h b" "e_live h' b = e_live h b"
    by (simp_all add: heap_rel_def)
  with w b show ?thesis
    by (auto simp: in_archives_def lock_entry_def)
qed

lemma in_archives_mono: "in_archives X h w \<Longrightarrow> in_archives (X \<union> Y) h w"
  by (auto simp: in_archives_def split: option.splits)

lemma mark_rel_trans:
  assumes h: "heap_rel X (objs s) (objs t)" and m1: "mark_rel X s t" and m2: "mark_rel Y t u"
  shows "mark_rel (X \<union> Y) s u"
proof -
  have "bookmarks u =
      filter (\<lambda>w. \<not> in_archives X (objs s) w \<and> \<not> in_archives Y (objs t) w) (bookmarks s)"
    using m1 m2 by (simp add: mark_rel_def conj_commute)
  also have "\<dots> = filter (\<lambda>w. \<not> in_archives (X \<union> Y) (objs s) w) (bookmarks s)"
  proof (rule filter_cong[OF refl])
    fix w
    show "(\<not> in_archives X (objs s) w \<and> \<not> in_archives Y (objs t) w) =
        (\<not> in_archives (X \<union> Y) (objs s) w)"
      using heap_rel_lock[OF h, of w Y] in_archives_mono[of X "objs s" w Y] by blast
  qed
  finally show ?thesis by (simp add: mark_rel_def)
qed

lemma closed_rel_refl: "closed_rel {} s s"
  by (simp add: closed_rel_def heap_rel_refl mark_rel_def)

lemma closed_rel_trans:
  assumes "closed_rel X s t" "closed_rel Y t u"
  shows "closed_rel (X \<union> Y) s u"
proof -
  from assms have r: "open_archives u = registry_without (X \<union> Y) (open_archives s)"
    by (simp add: closed_rel_def registry_without_twice)
  from assms have h: "heap_rel (X \<union> Y) (objs s) (objs u)"
    unfolding closed_rel_def using heap_rel_trans by blast
  from assms have m: "mark_rel (X \<union> Y) s u"
    unfolding closed_rel_def using mark_rel_trans by blast
  from r h m show ?thesis by (simp add: closed_rel_def)
qed

lemma registered_closed_rel:
  "closed_rel X s t \<Longrightarrow> registered t = registered s - X"
  by (simp add: closed_rel_def registered_def set_archive_registry_without)

lemma registry_ok_closed_rel:
  assumes ok: "registry_ok s" and rel: "closed_rel X s t"
  shows "registry_ok t"
proof -
  let ?R = "open_archives s"
  from rel have R': "open_archives t = registry_without X ?R" by (simp add: closed_rel_def)
  from ok have d: "distinct (map archive ?R)" by (simp add: registry_ok_def)
  then have d': "distinct (map archive (open_archives t))"
    unfolding R' map_archive_registry_without by simp
  from ok d have "follow_from {} ?R" by (simp add: registry_ok_def children_follow_iff)
  from follow_from_registry_without[OF this subset_refl, of X]
  have cf: "children_follow (open_archives t)"
    using d' by (simp add: children_follow_iff R')
  have lc: "links_consistent (objs t) (open_archives t)"
    unfolding links_consistent_def
  proof (intro ballI conjI)
    fix r' assume "r' \<in> set (open_archives t)"
    then obtain r where r: "r \<in> set ?R" "archive r \<notin> X" "r' = drop_children X r"
      unfolding R' registry_without_def by auto
    from ok r(1) have lr: "distinct (open_children r)"
      "\<forall>c \<in> set (open_children r). \<exists>e. a_parentEntry (objs s) c = Some e \<and>
          e_parent (objs s) e = Some (archive r)"
      unfolding registry_ok_def links_consistent_def by blast+
    from lr(1) r(3) show "distinct (open_children r')" by simp
    fix c assume "c \<in> set (open_children r')"
    with r(3) have "c \<in> set (open_children r)" by simp
    with lr(2) obtain e where e: "a_parentEntry (objs s) c = Some e"
      "e_parent (objs s) e = Some (archive r)" by blast
    from e(2) r(2) have nx: "e_parent (objs s) e \<notin> Some ` X" by auto
    with rel e have "a_parentEntry (objs t) c = Some e" "e_parent (objs t) e = Some (archive r)"
      unfolding closed_rel_def heap_rel_def by metis+
    with r(3) show "\<exists>e. a_parentEntry (objs t) c = Some e \<and> e_parent (objs t) e = Some (archive r')"
      by simp
  qed
  from d' cf lc show ?thesis by (simp add: registry_ok_def)
qed

lemma children_closed_trans:
  assumes kx: "children_closed X s" and rel: "closed_rel X s t" and ky: "children_closed Y t"
  shows "children_closed (X \<union> Y) s"
  unfolding children_closed_def
proof (intro ballI impI subsetI)
  fix r k assume r: "r \<in> set (open_archives s)" and a: "archive r \<in> X \<union> Y"
    and k: "k \<in> set (open_children r) \<inter> registered s"
  show "k \<in> X \<union> Y"
  proof (cases "archive r \<in> X")
    case True
    with kx r k show ?thesis unfolding children_closed_def by blast
  next
    case False
    with a have ay: "archive r \<in> Y" by simp
    show ?thesis
    proof (cases "k \<in> X")
      case True
      then show ?thesis by simp
    next
      case kx: False
      from rel have R': "open_archives t = registry_without X (open_archives s)"
        by (simp add: closed_rel_def)
      from r False have rt: "drop_children X r \<in> set (open_archives t)"
        unfolding R' registry_without_def by simp
      from k kx have kk: "k \<in> set (open_children (drop_children X r))" by simp
      from k kx registered_closed_rel[OF rel] have kr: "k \<in> registered t" by simp
      from ky rt have "archive (drop_children X r) \<in> Y \<longrightarrow>
          set (open_children (drop_children X r)) \<inter> registered t \<subseteq> Y"
        unfolding children_closed_def by blast
      with ay kk kr have "k \<in> Y" by (simp add: subset_iff)
      then show ?thesis by simp
    qed
  qed
qed

lemma remove1_distinct_filter: "distinct xs \<Longrightarrow> remove1 x xs = filter (\<lambda>k. k \<notin> {x}) xs"
proof -
  assume "distinct xs"
  then have "remove1 x xs = removeAll x xs" by (rule distinct_remove1_removeAll)
  also have "\<dots> = filter (\<lambda>k. k \<notin> {x}) xs" by (simp add: removeAll_filter_not_eq eq_commute)
  finally show ?thesis .
qed

lemma closeArchive_unlink_state:
  assumes ok: "registry_ok s"
  shows "open_archives (closeArchive_unlink x s) = map (drop_children {x}) (open_archives s) \<and>
         objs (closeArchive_unlink x s) = objs s \<and>
         bookmarks (closeArchive_unlink x s) = bookmarks s"
proof -
  let ?R = "open_archives s" and ?h = "objs s"
  from ok have d: "distinct (map archive ?R)" and lc: "links_consistent ?h ?R"
    by (simp_all add: registry_ok_def)
  have listed: "\<And>r. r \<in> set ?R \<Longrightarrow> x \<in> set (open_children r) \<Longrightarrow>
      \<exists>e. a_parentEntry ?h x = Some e \<and> e_parent ?h e = Some (archive r)"
    using lc unfolding links_consistent_def by blast
  have unlisted: "(\<And>r. r \<in> set ?R \<Longrightarrow> x \<notin> set (open_children r)) \<Longrightarrow>
      map (drop_children {x}) ?R = ?R"
  proof -
    assume a: "\<And>r. r \<in> set ?R \<Longrightarrow> x \<notin> set (open_children r)"
    have "\<And>r. r \<in> set ?R \<Longrightarrow> drop_children {x} r = r"
      using a by (intro drop_children_id) simp
    then show ?thesis by (simp add: map_idI)
  qed
  have other: "objs (closeArchive_unlink x s) = objs s \<and>
         bookmarks (closeArchive_unlink x s) = bookmarks s"
    by (simp add: closeArchive_unlink_def Let_def split: option.splits)
  have reg: "open_archives (closeArchive_unlink x s) = map (drop_children {x}) ?R"
  proof (cases "a_parentEntry ?h x")
    case None
    with listed have "\<And>r. r \<in> set ?R \<Longrightarrow> x \<notin> set (open_children r)" by fastforce
    from unlisted[OF this] None show ?thesis by (simp add: closeArchive_unlink_def)
  next
    case (Some parent)
    show ?thesis
    proof (cases "e_parent ?h parent")
      case None
      with Some listed have "\<And>r. r \<in> set ?R \<Longrightarrow> x \<notin> set (open_children r)" by fastforce
      from unlisted[OF this] None Some show ?thesis by (simp add: closeArchive_unlink_def)
    next
      case gp: (Some gp)
      have owner: "\<And>r. r \<in> set ?R \<Longrightarrow> x \<in> set (open_children r) \<Longrightarrow> archive r = gp"
      proof -
        fix r assume "r \<in> set ?R" "x \<in> set (open_children r)"
        from listed[OF this] Some gp show "archive r = gp" by auto
      qed
      show ?thesis
      proof (cases "archiveIndex s (Some gp) < 0")
        case True
        then have "gp \<notin> archive ` set ?R" by (simp add: archiveIndex_neg_iff)
        with owner have "\<And>r. r \<in> set ?R \<Longrightarrow> x \<notin> set (open_children r)" by (metis imageI)
        from unlisted[OF this] True Some gp show ?thesis
          by (simp add: closeArchive_unlink_def Let_def)
      next
        case False
        then have reg: "gp \<in> archive ` set ?R" by (simp add: archiveIndex_neg_iff)
        let ?pi = "nat (archiveIndex s (Some gp))"
        note f = archiveIndex_found[OF reg]
        let ?f = "\<lambda>r. r\<lparr>open_children := remove1 x (open_children r)\<rparr>"
        have "?R[?pi := ?f (?R ! ?pi)] =
            map (\<lambda>r. if archive r = archive (?R ! ?pi) then ?f r else r) ?R"
          by (rule update_eq_map[OF d f(2)]) simp
        also have "\<dots> = map (drop_children {x}) ?R"
        proof (rule map_cong[OF refl])
          fix r assume r: "r \<in> set ?R"
          show "(if archive r = archive (?R ! ?pi) then ?f r else r) = drop_children {x} r"
          proof (cases "archive r = gp")
            case True
            from lc r have "distinct (open_children r)" unfolding links_consistent_def by blast
            from remove1_distinct_filter[OF this, of x] True f(3) show ?thesis
              by (simp add: drop_children_def)
          next
            case ne: False
            with owner[OF r] have "x \<notin> set (open_children r)" by blast
            then have "drop_children {x} r = r" by (intro drop_children_id) simp
            with ne f(3) show ?thesis by simp
          qed
        qed
        finally show ?thesis using False Some gp
          by (simp add: closeArchive_unlink_def Let_def)
      qed
    qed
  qed
  from reg other show ?thesis by simp
qed

lemma closeArchive_finish_rel:
  assumes ok: "registry_ok s" and frame: "close_frame env" and i: "i < length (open_archives s)"
  shows "\<exists>s'. closeArchive_finish env (int i) mc s = Inr (True, s') \<and>
      open_archives s' = registry_without {archive (open_archives s ! i)} (open_archives s) \<and>
      heap_rel {archive (open_archives s ! i)} (objs s) (objs s') \<and> bookmarks s' = bookmarks s"
proof -
  let ?R = "open_archives s" and ?h = "objs s"
  let ?x = "archive (?R ! i)"
  let ?s1 = "closeArchive_unlink ?x s"
  note u = closeArchive_unlink_state[OF ok, of ?x]
  from ok have d: "distinct (map archive ?R)" by (simp add: registry_ok_def)
  have R1: "open_archives ?s1 = map (drop_children {?x}) ?R" using u by simp
  have x1: "archive (open_archives ?s1 ! i) = ?x" using i by (simp add: R1)
  have d1: "distinct (map archive (open_archives ?s1))" using d by (simp add: R1 o_def)
  have i1: "i < length (open_archives ?s1)" using i by (simp add: R1)
  have er: "take i (open_archives ?s1) @ drop (Suc i) (open_archives ?s1) =
      registry_without {?x} ?R"
  proof -
    have "take i (open_archives ?s1) @ drop (Suc i) (open_archives ?s1) =
        filter (\<lambda>r. archive r \<noteq> archive (open_archives ?s1 ! i)) (open_archives ?s1)"
      by (rule erase_eq_filter[OF d1 i1])
    also have "\<dots> = registry_without {?x} ?R"
      unfolding x1 by (simp add: R1 registry_without_def filter_map o_def)
    finally show ?thesis .
  qed
  have hr: "heap_rel {?x} ?h (closeObj env ?x ?h)"
    unfolding heap_rel_def
  proof (intro conjI allI impI)
    fix e assume "e_parent ?h e \<notin> Some ` {?x}"
    with frame show "e_parent (closeObj env ?x ?h) e = e_parent ?h e"
      unfolding close_frame_def by simp
  next
    fix e assume "e_parent ?h e \<notin> Some ` {?x}"
    with frame show "e_live (closeObj env ?x ?h) e = e_live ?h e"
      unfolding close_frame_def by simp
  next
    fix y e assume a: "a_parentEntry ?h y = Some e \<and> e_parent ?h e \<notin> Some ` {?x}"
    then have "\<forall>e'. a_parentEntry ?h y = Some e' \<longrightarrow> e_parent ?h e' \<noteq> Some ?x" by simp
    with frame have "a_parentEntry (closeObj env ?x ?h) y = a_parentEntry ?h y"
      unfolding close_frame_def by blast
    with a show "a_parentEntry (closeObj env ?x ?h) y = Some e" by simp
  qed
  let ?s' = "announce ''archive_closed'' mc
      (?s1\<lparr>objs := closeObj env (archive (open_archives ?s1 ! i)) (objs ?s1),
           open_archives := take i (open_archives ?s1) @ drop (Suc i) (open_archives ?s1)\<rparr>)"
  have res: "closeArchive_finish env (int i) mc s = Inr (True, ?s')"
    using i by (simp add: closeArchive_finish_def Let_def)
  have "open_archives ?s' = registry_without {?x} ?R" using er by (simp add: announce_def)
  moreover have "heap_rel {?x} ?h (objs ?s')" using hr u x1 by (simp add: announce_def)
  moreover have "bookmarks ?s' = bookmarks s" using u by (simp add: announce_def)
  ultimately show ?thesis using res by blast
qed

lemma reach_trans:
  assumes c: "c \<in> reach R a"
  shows "x \<in> reach R c \<Longrightarrow> x \<in> reach R a"
proof (induction rule: reach.induct)
  case reach_root
  show ?case by (rule c)
next
  case (reach_child x r k)
  then show ?case by (intro reach.reach_child[of x R a r k])
qed

lemma reach_mono:
  assumes sub: "sub_registry R' R"
  shows "x \<in> reach R' c \<Longrightarrow> x \<in> reach R c"
proof (induction rule: reach.induct)
  case reach_root
  show ?case by (rule reach.reach_root)
next
  case (reach_child x r' k)
  from sub reach_child(2) obtain r where r: "r \<in> set R" "archive r = archive r'"
    "set (open_children r') \<subseteq> set (open_children r)"
    unfolding sub_registry_def by blast
  from reach_child(5) obtain q where q: "q \<in> set R'" "archive q = k" by blast
  with sub obtain q' where "q' \<in> set R" "archive q' = k"
    unfolding sub_registry_def by metis
  then have "k \<in> archive ` set R" by (metis imageI)
  with reach_child r show ?case
    by (intro reach.reach_child[of x R c r k]) auto
qed

lemma sub_registry_without: "sub_registry (registry_without X R) R"
  unfolding sub_registry_def registry_without_def by (auto simp: drop_children_def)

lemma reach_closed:
  assumes a: "a \<in> X" and kc: "children_closed X s"
  shows "x \<in> reach (open_archives s) a \<Longrightarrow> x \<in> X"
proof (induction rule: reach.induct)
  case reach_root
  show ?case by (rule a)
next
  case (reach_child x r c)
  with kc show ?case unfolding children_closed_def registered_def by blast
qed

lemma prefix_archives_mono:
  "k \<le> m \<Longrightarrow> archive ` set (take k R) \<subseteq> archive ` set (take m R)"
  using set_take_subset_set_take[of k m R] by blast

lemma closeArchive_children_rel:
  assumes IH: "\<And>s index. registry_ok s \<Longrightarrow> 0 \<le> index \<Longrightarrow>
      nat index < length (open_archives s) \<Longrightarrow> length (open_archives s) - nat index \<le> n \<Longrightarrow>
      \<exists>s' X. closeArchive n env index s = Inr (True, s') \<and>
         subtree_closed X (nat index) s s' \<and> archive (open_archives s ! nat index) \<in> X \<and>
         X \<subseteq> reach (open_archives s) (archive (open_archives s ! nat index))"
  shows "registry_ok t \<Longrightarrow> i0 < length (open_archives t) \<Longrightarrow>
     length (open_archives t) - Suc i0 \<le> n \<Longrightarrow>
     set cs \<inter> archive ` set (take (Suc i0) (open_archives t)) = {} \<Longrightarrow>
     \<exists>t' Y. closeArchive_children n env cs t = Inr t' \<and> subtree_closed Y (Suc i0) t t' \<and>
        set cs \<inter> registered t \<subseteq> Y \<and>
        Y \<subseteq> (\<Union>c \<in> set cs \<inter> registered t. reach (open_archives t) c)"
proof (induction cs arbitrary: t)
  case Nil
  have "subtree_closed {} (Suc i0) t t"
    by (simp add: subtree_closed_def closed_rel_refl children_closed_def)
  then show ?case by auto
next
  case (Cons c cs)
  let ?R = "open_archives t"
  from Cons.prems(4) have cs0: "set cs \<inter> archive ` set (take (Suc i0) ?R) = {}"
    and c0: "c \<notin> archive ` set (take (Suc i0) ?R)" by auto
  show ?case
  proof (cases "c \<in> registered t")
    case False
    then have neg: "archiveIndex t (Some c) < 0"
      by (simp add: archiveIndex_neg_iff registered_def)
    from Cons.IH[OF Cons.prems(1,2,3) cs0] obtain t' Y where
      r: "closeArchive_children n env cs t = Inr t'" "subtree_closed Y (Suc i0) t t'"
      "set cs \<inter> registered t \<subseteq> Y"
      "Y \<subseteq> (\<Union>c \<in> set cs \<inter> registered t. reach (open_archives t) c)" by blast
    from neg r(1) have "closeArchive_children n env (c # cs) t = Inr t'" by simp
    moreover from False r(3) have "set (c # cs) \<inter> registered t \<subseteq> Y" by auto
    moreover from r(4) have "Y \<subseteq> (\<Union>c \<in> set (c # cs) \<inter> registered t. reach (open_archives t) c)"
      by auto
    ultimately show ?thesis using r(2) by blast
  next
    case True
    then have reg: "c \<in> archive ` set ?R" by (simp add: registered_def)
    let ?ci = "archiveIndex t (Some c)"
    note f = archiveIndex_found[OF reg]
    have ge: "Suc i0 \<le> nat ?ci"
    proof (rule ccontr)
      assume "\<not> Suc i0 \<le> nat ?ci"
      then have "nat ?ci < Suc i0" by simp
      with f(2) have "?R ! nat ?ci \<in> set (take (Suc i0) ?R)"
        by (auto simp: in_set_conv_nth intro!: exI[of _ "nat ?ci"])
      with f(3) c0 show False by (metis imageI)
    qed
    with Cons.prems(3) have fuel: "length ?R - nat ?ci \<le> n" by simp
    from IH[OF Cons.prems(1) f(1) f(2) fuel] f(3) obtain u X where
      u: "closeArchive n env ?ci t = Inr (True, u)" "subtree_closed X (nat ?ci) t u" "c \<in> X"
      "X \<subseteq> reach ?R c"
      by auto
    from u(2) have rel: "closed_rel X t u" and Xreg: "X \<subseteq> registered t"
      and Xpre: "X \<inter> archive ` set (take (nat ?ci) ?R) = {}" and Xkc: "children_closed X t"
      by (simp_all add: subtree_closed_def)
    from Xpre prefix_archives_mono[OF ge, of ?R]
    have Xpre0: "X \<inter> archive ` set (take (Suc i0) ?R) = {}" by blast
    from rel have Ru: "open_archives u = registry_without X ?R" by (simp add: closed_rel_def)
    have pre_u: "take (Suc i0) (open_archives u) = map (drop_children X) (take (Suc i0) ?R)"
      unfolding Ru by (rule registry_without_prefix[OF Xpre0])
    then have "length (take (Suc i0) (open_archives u)) = Suc i0"
      using Cons.prems(2) by simp
    then have iu: "i0 < length (open_archives u)" by simp
    have prea: "archive ` set (take (Suc i0) (open_archives u)) = archive ` set (take (Suc i0) ?R)"
      unfolding pre_u by (simp add: image_image)
    have oku: "registry_ok u" by (rule registry_ok_closed_rel[OF Cons.prems(1) rel])
    have lenu: "length (open_archives u) - Suc i0 \<le> n"
      using Cons.prems(3) length_registry_without[of X ?R] unfolding Ru by simp
    from cs0 prea have csu: "set cs \<inter> archive ` set (take (Suc i0) (open_archives u)) = {}"
      by simp
    from Cons.IH[OF oku iu lenu csu] obtain t' Y where
      r: "closeArchive_children n env cs u = Inr t'" "subtree_closed Y (Suc i0) u t'"
      "set cs \<inter> registered u \<subseteq> Y"
      "Y \<subseteq> (\<Union>c \<in> set cs \<inter> registered u. reach (open_archives u) c)" by blast
    from r(2) have rel2: "closed_rel Y u t'" and Yreg: "Y \<subseteq> registered u"
      and Ypre: "Y \<inter> archive ` set (take (Suc i0) (open_archives u)) = {}"
      and Ykc: "children_closed Y u"
      by (simp_all add: subtree_closed_def)
    note regu = registered_closed_rel[OF rel]
    have "closed_rel (X \<union> Y) t t'" by (rule closed_rel_trans[OF rel rel2])
    moreover have "X \<union> Y \<subseteq> registered t" using Xreg Yreg regu by blast
    moreover have "(X \<union> Y) \<inter> archive ` set (take (Suc i0) ?R) = {}"
      using Xpre0 Ypre prea by blast
    moreover have "children_closed (X \<union> Y) t"
      by (rule children_closed_trans[OF Xkc rel Ykc])
    ultimately have sc: "subtree_closed (X \<union> Y) (Suc i0) t t'"
      by (simp add: subtree_closed_def)
    have cov: "set (c # cs) \<inter> registered t \<subseteq> X \<union> Y"
      using u(3) r(3) regu by auto
    have sub: "sub_registry (open_archives u) ?R" unfolding Ru by (rule sub_registry_without)
    have within: "X \<union> Y \<subseteq> (\<Union>c \<in> set (c # cs) \<inter> registered t. reach ?R c)"
    proof
      fix x assume "x \<in> X \<union> Y"
      then show "x \<in> (\<Union>c \<in> set (c # cs) \<inter> registered t. reach ?R c)"
      proof
        assume "x \<in> X"
        with u(4) True show ?thesis by auto
      next
        assume "x \<in> Y"
        with r(4) obtain k where k: "k \<in> set cs" "k \<in> registered u" "x \<in> reach (open_archives u) k"
          by auto
        from k(2) regu have "k \<in> registered t" by simp
        moreover from reach_mono[OF sub k(3)] have "x \<in> reach ?R k" .
        ultimately show ?thesis using k(1) by auto
      qed
    qed
    from f(1) u(1) r(1) have "closeArchive_children n env (c # cs) t = Inr t'" by simp
    with sc cov within show ?thesis by blast
  qed
qed

lemma closeArchive_subtree:
  assumes frame: "close_frame env"
  shows "registry_ok s \<Longrightarrow> 0 \<le> index \<Longrightarrow> nat index < length (open_archives s) \<Longrightarrow>
     length (open_archives s) - nat index \<le> n \<Longrightarrow>
     \<exists>s' X. closeArchive n env index s = Inr (True, s') \<and>
        subtree_closed X (nat index) s s' \<and> archive (open_archives s ! nat index) \<in> X \<and>
        X \<subseteq> reach (open_archives s) (archive (open_archives s ! nat index))"
proof (induction n arbitrary: s index)
  case 0
  then show ?case by simp
next
  case (Suc n)
  let ?R = "open_archives s" and ?i = "nat index"
  let ?x = "archive (?R ! ?i)"
  let ?s4 = "snd (closeArchive_begin index s)"
  let ?cs = "open_children (?R ! ?i)"
  note b = closeArchive_begin_state[of index s]
  from Suc.prems(1) have d: "distinct (map archive ?R)" and cf: "children_follow ?R"
    and lc: "links_consistent (objs s) ?R" by (simp_all add: registry_ok_def)
  have R4: "open_archives ?s4 = ?R[?i := (?R ! ?i)\<lparr>open_children := []\<rparr>]" using b by simp
  have h4: "objs ?s4 = objs s" using b by simp
  have ma4: "map archive (open_archives ?s4) = map archive ?R"
    unfolding R4 by (simp add: map_update list_update_same_conv Suc.prems(3))
  have len4: "length (open_archives ?s4) = length ?R" unfolding R4 by simp
  have reg4: "registered ?s4 = registered s"
  proof -
    have "archive ` set (open_archives ?s4) = set (map archive (open_archives ?s4))" by simp
    also have "\<dots> = archive ` set ?R" unfolding ma4 by simp
    finally show ?thesis by (simp add: registered_def)
  qed
  have pre4: "\<And>k. archive ` set (take k (open_archives ?s4)) = archive ` set (take k ?R)"
  proof -
    fix k
    have "archive ` set (take k (open_archives ?s4)) = set (take k (map archive (open_archives ?s4)))"
      by (simp add: take_map)
    also have "\<dots> = archive ` set (take k ?R)" unfolding ma4 by (simp add: take_map)
    finally show "archive ` set (take k (open_archives ?s4)) = archive ` set (take k ?R)" .
  qed
  have mem4: "\<And>r. r \<in> set (open_archives ?s4) \<Longrightarrow>
      r = (?R ! ?i)\<lparr>open_children := []\<rparr> \<or> r \<in> set ?R"
    unfolding R4 using set_update_subset_insert[of ?R ?i] by blast
  have ok4: "registry_ok ?s4"
  proof -
    have "children_follow (open_archives ?s4)"
      unfolding children_follow_def
    proof (intro allI impI)
      fix i j assume i: "i < length (open_archives ?s4)" and j: "j < length (open_archives ?s4)"
        and m: "archive (open_archives ?s4 ! j) \<in> set (open_children (open_archives ?s4 ! i))"
      have aj: "archive (open_archives ?s4 ! j) = archive (?R ! j)"
        using j len4 nth_map[of j "open_archives ?s4" archive] nth_map[of j ?R archive] ma4
        by simp
      from m have "i \<noteq> ?i" using i len4 by (auto simp: R4)
      then have "open_archives ?s4 ! i = ?R ! i" by (simp add: R4)
      with m aj cf i j len4 show "i < j" unfolding children_follow_def by simp
    qed
    moreover have "links_consistent (objs ?s4) (open_archives ?s4)"
      unfolding links_consistent_def h4
    proof (intro ballI conjI)
      fix r assume r: "r \<in> set (open_archives ?s4)"
      from mem4[OF r] lc show "distinct (open_children r)"
        unfolding links_consistent_def by auto
      fix c assume c: "c \<in> set (open_children r)"
      with mem4[OF r] have "r \<in> set ?R" by auto
      with lc c show "\<exists>e. a_parentEntry (objs s) c = Some e \<and> e_parent (objs s) e = Some (archive r)"
        unfolding links_consistent_def by blast
    qed
    ultimately show ?thesis using d by (simp add: registry_ok_def ma4)
  qed
  have i4: "?i < length (open_archives ?s4)" using Suc.prems(3) len4 by simp
  have fuel4: "length (open_archives ?s4) - Suc ?i \<le> n" using Suc.prems(4) len4 by simp
  have cs4: "set ?cs \<inter> archive ` set (take (Suc ?i) (open_archives ?s4)) = {}"
  proof -
    from d cf have "follow_from {} ?R" by (simp add: children_follow_iff)
    with Suc.prems(3) have "set ?cs \<inter> archive ` set (take (Suc ?i) ?R) = {}"
      by (simp add: follow_from_iff)
    then show ?thesis unfolding pre4 .
  qed
  from closeArchive_children_rel[of n env ?s4 ?i ?cs, OF Suc.IH ok4 i4 fuel4 cs4]
  obtain s5 Y where
    l: "closeArchive_children n env ?cs ?s4 = Inr s5" "subtree_closed Y (Suc ?i) ?s4 s5"
    "set ?cs \<inter> registered ?s4 \<subseteq> Y"
    "Y \<subseteq> (\<Union>c \<in> set ?cs \<inter> registered ?s4. reach (open_archives ?s4) c)" by blast
  from l(2) have rel: "closed_rel Y ?s4 s5" and Yreg: "Y \<subseteq> registered ?s4"
    and Ypre: "Y \<inter> archive ` set (take (Suc ?i) (open_archives ?s4)) = {}"
    and Ykc: "children_closed Y ?s4"
    by (simp_all add: subtree_closed_def)
  from rel have R5: "open_archives s5 = registry_without Y (open_archives ?s4)"
    by (simp add: closed_rel_def)
  have pre5: "take (Suc ?i) (open_archives s5) = map (drop_children Y) (take (Suc ?i) (open_archives ?s4))"
    unfolding R5 by (rule registry_without_prefix[OF Ypre])
  then have "length (take (Suc ?i) (open_archives s5)) = Suc ?i" using i4 by simp
  then have i5: "?i < length (open_archives s5)" by simp
  have "open_archives s5 ! ?i = take (Suc ?i) (open_archives s5) ! ?i" by simp
  also have "\<dots> = drop_children Y (open_archives ?s4 ! ?i)"
    unfolding pre5 using i4 by simp
  finally have x5: "archive (open_archives s5 ! ?i) = ?x"
    using Suc.prems(3) by (simp add: R4)
  have ok5: "registry_ok s5" by (rule registry_ok_closed_rel[OF ok4 rel])
  from closeArchive_finish_rel[OF ok5 frame i5, of "Some (word_of_int index)"] x5
  obtain s' where
    fin: "closeArchive_finish env (int ?i) (Some (word_of_int index)) s5 = Inr (True, s')"
    "open_archives s' = registry_without {?x} (open_archives s5)"
    "heap_rel {?x} (objs s5) (objs s')" "bookmarks s' = bookmarks s5" by auto
  have idx: "int ?i = index" using Suc.prems(2) by simp
  have res: "closeArchive (Suc n) env index s = Inr (True, s')"
    using Suc.prems(2,3) l(1) fin(1) unfolding idx
    by (simp add: b)
  let ?X = "Y \<union> {?x}"
  have xY: "?x \<in> ?X" by simp
  have regR: "open_archives s' = registry_without ?X ?R"
  proof -
    have "open_archives s' = registry_without ?X (open_archives ?s4)"
      unfolding fin(2) R5 by (simp add: registry_without_twice)
    also have "\<dots> = registry_without ?X ?R"
      unfolding R4 by (rule registry_without_update[OF Suc.prems(3)]) simp_all
    finally show ?thesis .
  qed
  have heap: "heap_rel ?X (objs s) (objs s')"
    using heap_rel_trans[of Y "objs ?s4" "objs s5" "{?x}" "objs s'"] rel fin(3)
    unfolding closed_rel_def h4 by simp
  have marks: "mark_rel ?X s s'"
  proof -
    have "heap_rel {?x} (objs s) (objs ?s4)" unfolding h4 by (rule heap_rel_same)
    moreover have "mark_rel {?x} s ?s4" using b by (simp add: mark_rel_def in_archives_single)
    moreover from rel have "mark_rel Y ?s4 s5" by (simp add: closed_rel_def)
    ultimately have "mark_rel ({?x} \<union> Y) s s5" by (rule mark_rel_trans)
    then show ?thesis by (simp add: mark_rel_def fin(4) Un_commute)
  qed
  have Xreg: "?X \<subseteq> registered s"
    using Yreg reg4 Suc.prems(3) by (auto simp: registered_def)
  have Xpre: "?X \<inter> archive ` set (take ?i ?R) = {}"
  proof -
    have "archive ` set (take ?i ?R) \<subseteq> archive ` set (take (Suc ?i) ?R)"
      by (rule prefix_archives_mono) simp
    with Ypre[unfolded pre4]
    have "Y \<inter> archive ` set (take ?i ?R) = {}" by blast
    moreover have "?x \<notin> archive ` set (take ?i ?R)"
    proof
      assume "?x \<in> archive ` set (take ?i ?R)"
      then obtain j where j: "j < ?i" "archive (?R ! j) = ?x"
        using Suc.prems(3) by (auto simp: in_set_conv_nth)
      with d Suc.prems(3) show False
        using nth_eq_iff_index_eq[of "map archive ?R" j ?i] by simp
    qed
    ultimately show ?thesis by simp
  qed
  have Xkc: "children_closed ?X s"
    unfolding children_closed_def
  proof (intro ballI impI subsetI)
    fix r k assume r: "r \<in> set ?R" and a: "archive r \<in> ?X"
      and k: "k \<in> set (open_children r) \<inter> registered s"
    show "k \<in> ?X"
    proof (cases "archive r = ?x")
      case True
      from r obtain j where j: "j < length ?R" "r = ?R ! j" by (auto simp: in_set_conv_nth)
      with True d Suc.prems(3) have "j = ?i"
        using nth_eq_iff_index_eq[of "map archive ?R" j ?i] by simp
      with j k l(3) reg4 show ?thesis by auto
    next
      case False
      with a have aY: "archive r \<in> Y" by simp
      from r obtain j where j: "j < length ?R" "r = ?R ! j" by (auto simp: in_set_conv_nth)
      with False have "j \<noteq> ?i" by auto
      with j have "open_archives ?s4 ! j = r" by (simp add: R4)
      with j len4 have "r \<in> set (open_archives ?s4)" by (metis nth_mem)
      with Ykc aY k reg4 show ?thesis unfolding children_closed_def by blast
    qed
  qed
  have sub4: "sub_registry (open_archives ?s4) ?R"
    unfolding sub_registry_def
  proof
    fix r' assume "r' \<in> set (open_archives ?s4)"
    from mem4[OF this]
    show "\<exists>r \<in> set ?R. archive r = archive r' \<and> set (open_children r') \<subseteq> set (open_children r)"
    proof
      assume "r' = (?R ! ?i)\<lparr>open_children := []\<rparr>"
      then have "archive (?R ! ?i) = archive r' \<and>
          set (open_children r') \<subseteq> set (open_children (?R ! ?i))" by simp
      with nth_mem[OF Suc.prems(3)] show ?thesis by blast
    next
      assume "r' \<in> set ?R"
      then show ?thesis by blast
    qed
  qed
  have within: "?X \<subseteq> reach ?R ?x"
  proof
    fix y assume "y \<in> ?X"
    then show "y \<in> reach ?R ?x"
    proof
      assume "y \<in> Y"
      with l(4) obtain c where c: "c \<in> set ?cs" "c \<in> registered ?s4"
        "y \<in> reach (open_archives ?s4) c" by auto
      from c(2) reg4 have cr: "c \<in> archive ` set ?R" by (simp add: registered_def)
      have "c \<in> reach ?R ?x"
        by (rule reach.reach_child[OF reach.reach_root nth_mem[OF Suc.prems(3)] refl c(1) cr])
      moreover from reach_mono[OF sub4 c(3)] have "y \<in> reach ?R c" .
      ultimately show ?thesis by (rule reach_trans)
    next
      assume "y \<in> {?x}"
      then show ?thesis by (simp add: reach.reach_root)
    qed
  qed
  have "subtree_closed ?X ?i s s'"
    using regR heap marks Xreg Xpre Xkc by (simp add: subtree_closed_def closed_rel_def)
  with res xY within show ?case by blast
qed

lemma child_list_closed:
  "children_closed X s \<Longrightarrow> x \<in> X \<Longrightarrow> set (child_list s x) \<inter> registered s \<subseteq> X"
  unfolding children_closed_def child_list_def by auto

text \<open>
  What one call of \<^verbatim>\<open>closeArchive\<close> does, exactly: the archives it closes are those
  reached from the archive at the position.
\<close>

lemma closeArchive_exact:
  assumes frame: "close_frame env" and ok: "registry_ok s"
    and idx: "0 \<le> index" "nat index < length (open_archives s)"
    and fuel: "length (open_archives s) - nat index \<le> n"
  shows "\<exists>s'. closeArchive n env index s = Inr (True, s') \<and>
     closed_rel (reach (open_archives s) (archive (open_archives s ! nat index))) s s' \<and>
     registry_ok s'"
proof -
  let ?a = "archive (open_archives s ! nat index)"
  from closeArchive_subtree[OF frame ok idx fuel] obtain s' X where
    r: "closeArchive n env index s = Inr (True, s')" "subtree_closed X (nat index) s s'" "?a \<in> X"
    "X \<subseteq> reach (open_archives s) ?a"
    by blast
  from r(2) have rel: "closed_rel X s s'" and kc: "children_closed X s"
    by (simp_all add: subtree_closed_def)
  from reach_closed[OF r(3) kc] r(4) have X: "X = reach (open_archives s) ?a" by blast
  from registry_ok_closed_rel[OF ok rel] r(1) rel X show ?thesis by blast
qed

text \<open>
  Claim C1, as amended. Let the registry have the shape the manager's open and close
  operations give it (\<open>registry_ok\<close>: no archive has two records, a registered child
  stands after the record that lists it, no child list names an archive twice, and
  each listed child's parent entry belongs to the listing archive), and let the codecs'
  \<^verbatim>\<open>close\<close> touch only the closed archive's own entries. Closing the archive \<open>a\<close> at a
  valid position returns true, given fuel for the records from that position on. With
  \<open>D\<close> the archives reached from \<open>a\<close> through child links to registered archives (\<open>a\<close>
  itself, its registered children, their registered children, and so on: in particular
  a registered child \<open>c\<close> and a registered grandchild \<open>g\<close>), the registry afterwards is
  exactly the old one with the records of \<open>D\<close> erased and the members of \<open>D\<close> dropped from
  every remaining child list (so \<open>a\<close> is gone from its parent's list, whose record
  otherwise stays as it was), and the bookmarks are exactly the old ones, in order,
  that resolve to an entry of an archive outside \<open>D\<close>. The registry keeps its shape.
  The children are closed from the copy of the child list that \<open>closeArchive_begin\<close>
  takes before it clears the list.
\<close>

theorem closeArchive_nested:
  assumes ok: "registry_ok s" and frame: "close_frame env"
    and idx: "0 \<le> index" "nat index < length (open_archives s)"
    and fuel: "length (open_archives s) - nat index \<le> n"
    and a: "a = archive (open_archives s ! nat index)"
    and D: "D = reach (open_archives s) a"
  shows "\<exists>s'. closeArchive n env index s = Inr (True, s') \<and>
     open_archives s' = registry_without D (open_archives s) \<and>
     bookmarks s' =
       filter (\<lambda>w. case lock_entry (objs s) w of
                      None \<Rightarrow> False
                    | Some b \<Rightarrow> e_parent (objs s) b \<notin> Some ` D) (bookmarks s) \<and>
     registry_ok s' \<and> a \<in> D \<and> D \<subseteq> registered s \<and>
     (\<forall>c g. c \<in> set (child_list s a) \<inter> registered s \<and>
            g \<in> set (child_list s c) \<inter> registered s \<longrightarrow> c \<in> D \<and> g \<in> D)"
proof -
  from closeArchive_exact[OF frame ok idx fuel] a D obtain s' where
    r: "closeArchive n env index s = Inr (True, s')" "closed_rel D s s'" "registry_ok s'"
    by blast
  have aD: "a \<in> D" unfolding D by (rule reach.reach_root)
  have step: "\<And>x c. x \<in> D \<Longrightarrow> c \<in> set (child_list s x) \<inter> registered s \<Longrightarrow> c \<in> D"
  proof -
    fix x c assume x: "x \<in> D" and c: "c \<in> set (child_list s x) \<inter> registered s"
    then obtain r where "r \<in> set (open_archives s)" "archive r = x" "c \<in> set (open_children r)"
      by (auto simp: child_list_def)
    with x c show "c \<in> D" unfolding D registered_def
      by (intro reach.reach_child[of x _ a r c]) auto
  qed
  have sub: "D \<subseteq> registered s"
  proof
    fix x assume "x \<in> D"
    then have "x \<in> reach (open_archives s) a" by (simp add: D)
    then show "x \<in> registered s"
    proof (induction rule: reach.induct)
      case reach_root
      from idx(2) a show ?case unfolding registered_def by (metis imageI nth_mem)
    next
      case (reach_child x r c)
      then show ?case by (simp add: registered_def)
    qed
  qed
  from aD have ne: "D \<noteq> {}" by blast
  have marks: "bookmarks s' =
       filter (\<lambda>w. case lock_entry (objs s) w of
                      None \<Rightarrow> False
                    | Some b \<Rightarrow> e_parent (objs s) b \<notin> Some ` D) (bookmarks s)"
  proof -
    from r(2) have "bookmarks s' = filter (\<lambda>w. \<not> in_archives D (objs s) w) (bookmarks s)"
      by (simp add: closed_rel_def mark_rel_def)
    also have "\<dots> = filter (\<lambda>w. case lock_entry (objs s) w of
                      None \<Rightarrow> False
                    | Some b \<Rightarrow> e_parent (objs s) b \<notin> Some ` D) (bookmarks s)"
      by (rule filter_cong[OF refl]) (simp add: in_archives_def ne split: option.splits)
    finally show ?thesis .
  qed
  from r(2) have R: "open_archives s' = registry_without D (open_archives s)"
    by (simp add: closed_rel_def)
  from step[OF aD] step have two: "\<forall>c g. c \<in> set (child_list s a) \<inter> registered s \<and>
            g \<in> set (child_list s c) \<inter> registered s \<longrightarrow> c \<in> D \<and> g \<in> D"
    by blast
  from r(1) R marks r(3) aD sub two show ?thesis by blast
qed

lemma sample_registry_ok: "registry_ok sample_state"
proof -
  have d: "distinct (map archive (open_archives sample_state))"
    by (simp add: sample_state_def)
  have "follow_from {} (open_archives sample_state)"
    by (simp add: sample_state_def)
  with d have cf: "children_follow (open_archives sample_state)"
    by (simp add: children_follow_iff)
  have lc: "links_consistent (objs sample_state) (open_archives sample_state)"
    by (simp add: links_consistent_def sample_state_def sample_objs_def)
  from d cf lc show ?thesis by (simp add: registry_ok_def)
qed

lemma sample_close_frame: "close_frame sample_env"
  by (simp add: close_frame_def sample_env_def)

lemma sample_reach:
  "reach (open_archives sample_state) 1 = {1, 2, 3}"
  "reach (open_archives sample_state) 2 = {2, 3}"
proof -
  let ?R = "open_archives sample_state"
  have r1: "\<lparr>archive = 1, resource = True, open_children = [2]\<rparr> \<in> set ?R"
    and r2: "\<lparr>archive = 2, resource = True, open_children = [3]\<rparr> \<in> set ?R"
    and reg: "2 \<in> archive ` set ?R" "3 \<in> archive ` set ?R"
    by (simp_all add: sample_state_def)
  have kids: "\<And>r c. r \<in> set ?R \<Longrightarrow> c \<in> set (open_children r) \<Longrightarrow>
      (archive r = 1 \<and> c = 2) \<or> (archive r = 2 \<and> c = 3)"
    by (auto simp: sample_state_def)
  have up1: "\<And>x. x \<in> reach ?R 1 \<Longrightarrow> x \<in> {1, 2, 3}"
  proof -
    fix x assume "x \<in> reach ?R 1"
    then show "x \<in> {1, 2, 3}"
    proof (induction rule: reach.induct)
      case reach_root
      show ?case by simp
    next
      case (reach_child x r c)
      from kids[OF reach_child(2,4)] show ?case by auto
    qed
  qed
  have up2: "\<And>x. x \<in> reach ?R 2 \<Longrightarrow> x \<in> {2, 3}"
  proof -
    fix x assume "x \<in> reach ?R 2"
    then show "x \<in> {2, 3}"
    proof (induction rule: reach.induct)
      case reach_root
      show ?case by simp
    next
      case (reach_child x r c)
      from kids[OF reach_child(2,4)] reach_child(3,6) show ?case by auto
    qed
  qed
  have d12: "2 \<in> reach ?R 1"
    by (rule reach.reach_child[OF reach.reach_root r1 _ _ reg(1)]) simp_all
  have d13: "3 \<in> reach ?R 1"
    by (rule reach.reach_child[OF d12 r2 _ _ reg(2)]) simp_all
  have d23: "3 \<in> reach ?R 2"
    by (rule reach.reach_child[OF reach.reach_root r2 _ _ reg(2)]) simp_all
  from up1 d12 d13 reach.reach_root[of 1 ?R] show "reach ?R 1 = {1, 2, 3}" by blast
  from up2 d23 reach.reach_root[of 2 ?R] show "reach ?R 2 = {2, 3}" by blast
qed

theorem closeArchive_nested_witness:
  "registry_ok sample_state \<and> close_frame sample_env \<and>
   open_archives sample_state =
     [\<lparr>archive = 1, resource = True, open_children = [2]\<rparr>,
      \<lparr>archive = 2, resource = True, open_children = [3]\<rparr>,
      \<lparr>archive = 3, resource = True, open_children = []\<rparr>,
      \<lparr>archive = 4, resource = False, open_children = []\<rparr>] \<and>
   bookmarks sample_state = [Some 22, Some 31, Some 41, Some 51, Some 23, Some 111] \<and>
   (\<exists>s'. closeArchive 4 sample_env 0 sample_state = Inr (True, s') \<and>
      open_archives s' = [\<lparr>archive = 4, resource = False, open_children = []\<rparr>] \<and>
      bookmarks s' = [Some 51]) \<and>
   (\<exists>s'. closeArchive 3 sample_env 1 sample_state = Inr (True, s') \<and>
      open_archives s' =
        [\<lparr>archive = 1, resource = True, open_children = []\<rparr>,
         \<lparr>archive = 4, resource = False, open_children = []\<rparr>] \<and>
      bookmarks s' = [Some 22, Some 51, Some 23, Some 111])"
proof -
  have R: "open_archives sample_state =
     [\<lparr>archive = 1, resource = True, open_children = [2]\<rparr>,
      \<lparr>archive = 2, resource = True, open_children = [3]\<rparr>,
      \<lparr>archive = 3, resource = True, open_children = []\<rparr>,
      \<lparr>archive = 4, resource = False, open_children = []\<rparr>]"
    and B: "bookmarks sample_state = [Some 22, Some 31, Some 41, Some 51, Some 23, Some 111]"
    by (simp_all add: sample_state_def)
  have h: "objs sample_state = sample_objs" by (simp add: sample_state_def)
  have i0: "(0::int) \<le> 0" "nat 0 < length (open_archives sample_state)"
    "length (open_archives sample_state) - nat 0 \<le> 4"
    and a0: "1 = archive (open_archives sample_state ! nat 0)"
    and i1: "(0::int) \<le> 1" "nat 1 < length (open_archives sample_state)"
    "length (open_archives sample_state) - nat 1 \<le> 3"
    and a1: "2 = archive (open_archives sample_state ! nat 1)"
    by (simp_all add: R)
  from closeArchive_nested[OF sample_registry_ok sample_close_frame i0 a0 sample_reach(1)[symmetric]]
  obtain s0 where s0: "closeArchive 4 sample_env 0 sample_state = Inr (True, s0)"
    "open_archives s0 = registry_without {1, 2, 3} (open_archives sample_state)"
    "bookmarks s0 =
       filter (\<lambda>w. case lock_entry (objs sample_state) w of
                      None \<Rightarrow> False
                    | Some b \<Rightarrow> e_parent (objs sample_state) b \<notin> Some ` {1, 2, 3})
         (bookmarks sample_state)"
    by blast
  from closeArchive_nested[OF sample_registry_ok sample_close_frame i1 a1 sample_reach(2)[symmetric]]
  obtain s1 where s1: "closeArchive 3 sample_env 1 sample_state = Inr (True, s1)"
    "open_archives s1 = registry_without {2, 3} (open_archives sample_state)"
    "bookmarks s1 =
       filter (\<lambda>w. case lock_entry (objs sample_state) w of
                      None \<Rightarrow> False
                    | Some b \<Rightarrow> e_parent (objs sample_state) b \<notin> Some ` {2, 3})
         (bookmarks sample_state)"
    by blast
  have R0: "open_archives s0 = [\<lparr>archive = 4, resource = False, open_children = []\<rparr>]"
    unfolding s0(2) R by (simp add: registry_without_def drop_children_def)
  have B0: "bookmarks s0 = [Some 51]"
    unfolding s0(3) B h by (simp add: lock_entry_def sample_objs_def)
  have R1: "open_archives s1 =
        [\<lparr>archive = 1, resource = True, open_children = []\<rparr>,
         \<lparr>archive = 4, resource = False, open_children = []\<rparr>]"
    unfolding s1(2) R by (simp add: registry_without_def drop_children_def)
  have B1: "bookmarks s1 = [Some 22, Some 51, Some 23, Some 111]"
    unfolding s1(3) B h by (simp add: lock_entry_def sample_objs_def)
  from s0(1) R0 B0 have e0: "\<exists>s'. closeArchive 4 sample_env 0 sample_state = Inr (True, s') \<and>
      open_archives s' = [\<lparr>archive = 4, resource = False, open_children = []\<rparr>] \<and>
      bookmarks s' = [Some 51]" by blast
  from s1(1) R1 B1 have e1: "\<exists>s'. closeArchive 3 sample_env 1 sample_state = Inr (True, s') \<and>
      open_archives s' =
        [\<lparr>archive = 1, resource = True, open_children = []\<rparr>,
         \<lparr>archive = 4, resource = False, open_children = []\<rparr>] \<and>
      bookmarks s' = [Some 22, Some 51, Some 23, Some 111]" by blast
  from sample_registry_ok sample_close_frame R B e0 e1 show ?thesis by blast
qed

text \<open>
  Without the shape the claim fails. \<^verbatim>\<open>addArchive\<close> does not look for the archive in the
  registry: called for the archive 2 of the sample session, which is registered, it
  pushes a second record for it. Closing the archive 1 then closes its child 2 at the
  first of the two records, and returns true with the other record of the closed
  archive 2 still in the registry.
\<close>

theorem closeArchive_nested_counterexample:
  "addArchive 1 sample_env (Some 2) sample_state = Inr (True, sample_twice) \<and>
   open_archives sample_twice =
     [\<lparr>archive = 1, resource = True, open_children = [2]\<rparr>,
      \<lparr>archive = 2, resource = True, open_children = [3]\<rparr>,
      \<lparr>archive = 3, resource = True, open_children = []\<rparr>,
      \<lparr>archive = 4, resource = False, open_children = []\<rparr>,
      \<lparr>archive = 2, resource = True, open_children = []\<rparr>] \<and>
   closeArchive 5 sample_env 0 sample_twice =
     Inr (True, snd (projr (closeArchive 5 sample_env 0 sample_twice))) \<and>
   open_archives (snd (projr (closeArchive 5 sample_env 0 sample_twice))) =
     [\<lparr>archive = 4, resource = False, open_children = []\<rparr>,
      \<lparr>archive = 2, resource = True, open_children = []\<rparr>] \<and>
   2 \<in> registered (snd (projr (closeArchive 5 sample_env 0 sample_twice)))"
proof -
  have five: "(5::nat) = Suc (Suc (Suc (Suc (Suc 0))))" by simp
  have add: "addArchive 1 sample_env (Some 2) sample_state = Inr (True, sample_twice)"
    by (simp add: addArchive_register_def Let_def announce_def resources_addArchive_def
        sample_twice_def sample_state_def sample_objs_def sample_env_def)
  have R: "open_archives sample_twice =
     [\<lparr>archive = 1, resource = True, open_children = [2]\<rparr>,
      \<lparr>archive = 2, resource = True, open_children = [3]\<rparr>,
      \<lparr>archive = 3, resource = True, open_children = []\<rparr>,
      \<lparr>archive = 4, resource = False, open_children = []\<rparr>,
      \<lparr>archive = 2, resource = True, open_children = []\<rparr>]"
    by (simp add: sample_twice_def sample_state_def)
  have cl: "\<exists>s'. closeArchive 5 sample_env 0 sample_twice = Inr (True, s') \<and>
        open_archives s' = [\<lparr>archive = 4, resource = False, open_children = []\<rparr>,
                            \<lparr>archive = 2, resource = True, open_children = []\<rparr>]"
    unfolding five
    by (simp add: closeArchive_begin_def closeArchive_finish_def closeArchive_unlink_def Let_def
        announce_def resources_removeArchive_def deleteBookmarksInArchive_def
        deleteBookmarksInArchive_loop_filter lock_entry_def archiveIndex_def
        sample_twice_def sample_state_def sample_objs_def sample_env_def)
  then obtain s' where s': "closeArchive 5 sample_env 0 sample_twice = Inr (True, s')"
    "open_archives s' = [\<lparr>archive = 4, resource = False, open_children = []\<rparr>,
                         \<lparr>archive = 2, resource = True, open_children = []\<rparr>]"
    by blast
  then have "2 \<in> registered s'" by (simp add: registered_def)
  with add R s' show ?thesis by simp
qed

section \<open>Automatic opening of wads inside zip and folder archives\<close>

text \<open>
  \<^verbatim>\<open>addArchive\<close> registers the archive and, for a zip or folder archive with the toggle
  on, walks its entries: an entry whose type, sniffed when unknown, is wad goes to
  \<^verbatim>\<open>openArchive(ArchiveEntry*)\<close> with \<^verbatim>\<open>manage\<close> and \<^verbatim>\<open>silent\<close> set, which links the new
  archive into the record of the entry's owner and calls \<^verbatim>\<open>addArchive\<close> for it in turn.
  The lemmas follow one entry (\<open>entry_open_step\<close>, \<open>entry_fail_step\<close>), the loop over the
  entries (\<open>entries_loop\<close>) and the whole recursion (\<open>open_tree\<close>), then show that the
  registry keeps its shape (\<open>tree_registry_ok\<close>) and that closing the archive closes
  all that was opened from it (\<open>close_tree\<close>).
\<close>

lemma archiveIndex_from_append:
  "a \<notin> archive ` set R \<Longrightarrow> archive r = a \<Longrightarrow>
   archiveIndex_from k (R @ r # rest) (Some a) = k + int (length R)"
proof (induction R arbitrary: k)
  case Nil
  then show ?case by simp
next
  case (Cons q R)
  then have "archive q \<noteq> a" "a \<notin> archive ` set R" by auto
  with Cons.IH[of "k + 1"] Cons.prems(2) show ?case by simp
qed

lemma archiveIndex_append:
  "a \<notin> archive ` set R \<Longrightarrow> archive r = a \<Longrightarrow> open_archives s = R @ r # rest \<Longrightarrow>
   archiveIndex s (Some a) = int (length R)"
  using archiveIndex_from_append[of a R r 0 rest] by (simp add: archiveIndex_def)

lemma openArchive_entry_find_None:
  "(openArchive_entry_find h R e = None) = (\<forall>r \<in> set R. a_parentEntry h (archive r) \<noteq> Some e)"
  by (induction R) auto

lemma adds_refl: "adds [] t t"
  by (simp add: adds_def)

lemma adds_trans: "adds xs t u \<Longrightarrow> adds ys u v \<Longrightarrow> adds (xs @ ys) t v"
  by (simp add: adds_def)

lemma same_world_refl: "same_world env h h"
  by (simp add: same_world_def)

lemma subtree_head: "subtree n env h x = x # tl (subtree n env h x)"
  by (cases n) simp_all

lemma subtree_mem: "x \<in> set (subtree n env h x)"
  by (cases n) simp_all

lemma addArchive_register_state:
  "open_archives (addArchive_register x t) =
     open_archives t @ [\<lparr>archive = x, resource = True, open_children = []\<rparr>] \<and>
   objs (addArchive_register x t) = objs t \<and> adds [x] t (addArchive_register x t)"
  by (simp add: addArchive_register_def Let_def announce_def resources_addArchive_def adds_def)

lemma addArchive_detect_state:
  assumes stable: "stable_world env h0" and same: "same_world env h0 (objs t)"
  shows "open_archives (addArchive_detect env e t) = open_archives t \<and>
     adds [] t (addArchive_detect env e t) \<and>
     same_world env h0 (objs (addArchive_detect env e t)) \<and>
     (e_type (objs (addArchive_detect env e t)) e = Some ''wad'') = sniffs_wad env h0 e"
proof -
  have w: "same_world env h0 (objs (addArchive_detect env e t))"
  proof (cases "e_type (objs t) e = None")
    case True
    with stable same have "same_world env h0 (detectEntryType env e (objs t))"
      unfolding stable_world_def by blast
    with True show ?thesis by (simp add: addArchive_detect_def)
  next
    case False
    with same show ?thesis by (auto simp: addArchive_detect_def)
  qed
  have "(e_type (objs (addArchive_detect env e t)) e = Some ''wad'') = sniffs_wad env (objs t) e"
    by (simp add: addArchive_detect_def sniffs_wad_def)
  also from same have "\<dots> = sniffs_wad env h0 e" by (simp add: same_world_def)
  finally show ?thesis using w by (simp add: addArchive_detect_def adds_def)
qed

lemma entry_unopened:
  assumes wok: "world_ok env h0" and same: "same_world env h0 (objs t)"
    and none: "\<And>c. opens env h0 e = Some c \<Longrightarrow> c \<notin> archive ` set (open_archives t)"
  shows "openArchive_entry_find (objs t) (open_archives t) e = None"
proof -
  have "\<forall>r \<in> set (open_archives t). a_parentEntry (objs t) (archive r) \<noteq> Some e"
  proof
    fix r assume r: "r \<in> set (open_archives t)"
    show "a_parentEntry (objs t) (archive r) \<noteq> Some e"
    proof
      assume "a_parentEntry (objs t) (archive r) = Some e"
      with same have "a_parentEntry h0 (archive r) = Some e" by (simp add: same_world_def)
      with wok have "opens env h0 e = Some (archive r)" by (simp add: world_ok_def)
      from none[OF this] r show False by (metis imageI)
    qed
  qed
  then show ?thesis by (simp add: openArchive_entry_find_None)
qed

lemma entry_fail_step:
  assumes wok: "world_ok env h0" and same: "same_world env h0 (objs t)"
    and op: "opens env h0 e = None"
  shows "\<exists>t'. openArchive_entry n env (Some e) True True t = Inr (None, t') \<and>
     open_archives t' = open_archives t \<and> adds [] t t' \<and> objs t' = objs t"
proof -
  from op have fn: "openArchive_entry_find (objs t) (open_archives t) e = None"
    by (intro entry_unopened[OF wok same]) simp
  from same op have o: "opens env (objs t) e = None" by (simp add: same_world_def)
  show ?thesis
  proof (cases "detect_entry env (objs t) e")
    case None
    then have "openArchive_entry_start env e True True t =
        Inl (None, t\<lparr>global_error := ''Unsupported or invalid Archive format''\<rparr>)"
      by (simp add: openArchive_entry_start_def fn)
    then show ?thesis by (simp add: adds_def)
  next
    case (Some g)
    with o have "openEntry env g e (objs t) = None" by (simp add: opens_def)
    with Some have "openArchive_entry_start env e True True t = Inl (None, t)"
      by (simp add: openArchive_entry_start_def fn)
    then show ?thesis by (simp add: adds_def)
  qed
qed

lemma entry_open_step:
  assumes stable: "stable_world env h0" and wok: "world_ok env h0"
    and same: "same_world env h0 (objs t)"
    and reg: "open_archives t = R0 @ \<lparr>archive = x, resource = True, open_children = ks\<rparr> # N"
    and x: "x \<notin> archive ` set R0"
    and own: "e_parent h0 e = Some x"
    and op: "opens env h0 e = Some c"
    and fresh: "c \<notin> archive ` set (open_archives t)"
    and IH: "\<And>u. same_world env h0 (objs u) \<Longrightarrow>
       open_archives u = R0 @ \<lparr>archive = x, resource = True, open_children = ks @ [c]\<rparr> # N \<Longrightarrow>
       listening u = listening t \<Longrightarrow> announced u = announced t \<Longrightarrow>
       resources_calls u = resources_calls t \<Longrightarrow> bookmarks u = bookmarks t \<Longrightarrow>
       archive_file u = archive_file t \<Longrightarrow>
       \<exists>u'. addArchive n env (Some c) u = Inr (True, u') \<and>
          open_archives u' = open_archives u @ M \<and> adds A u u' \<and> same_world env h0 (objs u')"
  shows "\<exists>t'. openArchive_entry n env (Some e) True True t = Inr (Some c, t') \<and>
     open_archives t' =
       R0 @ \<lparr>archive = x, resource = True, open_children = ks @ [c]\<rparr> # N @ M \<and>
     adds A t t' \<and> same_world env h0 (objs t')"
proof -
  from op fresh have fn: "openArchive_entry_find (objs t) (open_archives t) e = None"
    by (intro entry_unopened[OF wok same]) simp
  from same op have "opens env (objs t) e = Some c" by (simp add: same_world_def)
  then obtain g h' where g: "detect_entry env (objs t) e = Some g"
    and o: "openEntry env g e (objs t) = Some (c, h')"
    by (auto simp: opens_def split: option.splits)
  from stable same o have same': "same_world env h0 h'"
    unfolding stable_world_def by blast
  with own have own': "e_parent h' e = Some x" by (simp add: same_world_def)
  have ix: "archiveIndex (t\<lparr>objs := h'\<rparr>) (Some x) = int (length R0)"
    by (rule archiveIndex_append[OF x _ , of _ _ N]) (simp_all add: reg)
  let ?u = "t\<lparr>objs := h',
      open_archives := R0 @ \<lparr>archive = x, resource = True, open_children = ks @ [c]\<rparr> # N\<rparr>"
  have start: "openArchive_entry_start env e True True t = Inr (c, ?u)"
    unfolding openArchive_entry_start_def fn option.case g o prod.case
    using own' ix by (simp add: Let_def reg)
  from IH[of ?u] same' obtain u' where
    u': "addArchive n env (Some c) ?u = Inr (True, u')" "open_archives u' = open_archives ?u @ M"
    "adds A ?u u'" "same_world env h0 (objs u')"
    by auto
  have res: "openArchive_entry n env (Some e) True True t = Inr (Some c, u')"
    unfolding openArchive_entry.simps start sum.case prod.case u'(1)
    by (simp add: announce_opened_def)
  from u'(3) have "adds A t u'" by (simp add: adds_def)
  with res u'(2,4) show ?thesis by simp
qed

lemma archives_of_records [simp]: "map archive (map (record_of env h) xs) = xs"
  by (induction xs) (simp_all add: record_of_def)

lemma archive_record_image [simp]: "archive ` record_of env h ` S = S"
  by (simp add: image_image record_of_def)

lemma archive_set_records: "archive ` set (map (record_of env h) xs) = set xs"
  by simp

lemma entries_loop:
  assumes stable: "stable_world env h0" and wok: "world_ok env h0"
    and IH: "\<And>c u. same_world env h0 (objs u) \<Longrightarrow> nested n env h0 c \<Longrightarrow>
       distinct (subtree n env h0 c) \<Longrightarrow>
       set (subtree n env h0 c) \<inter> archive ` set (open_archives u) = {} \<Longrightarrow>
       \<exists>u'. addArchive n env (Some c) u = Inr (True, u') \<and>
          open_archives u' = open_archives u @ map (record_of env h0) (subtree n env h0 c) \<and>
          adds (subtree n env h0 c) u u' \<and> same_world env h0 (objs u')"
  shows "same_world env h0 (objs t) \<Longrightarrow>
     open_archives t = R0 @ \<lparr>archive = x, resource = True, open_children = ks\<rparr> # N \<Longrightarrow>
     x \<notin> archive ` set R0 \<Longrightarrow>
     \<forall>e \<in> set es. e_parent h0 e = Some x \<Longrightarrow>
     \<forall>c \<in> set (wads_of env h0 es). nested n env h0 c \<Longrightarrow>
     distinct (concat (map (subtree n env h0) (wads_of env h0 es))) \<Longrightarrow>
     set (concat (map (subtree n env h0) (wads_of env h0 es))) \<inter>
       archive ` set (open_archives t) = {} \<Longrightarrow>
     \<exists>t'. addArchive_entries n env es t = Inr t' \<and>
        open_archives t' =
          R0 @ \<lparr>archive = x, resource = True, open_children = ks @ wads_of env h0 es\<rparr> # N @
            map (record_of env h0) (concat (map (subtree n env h0) (wads_of env h0 es))) \<and>
        adds (concat (map (subtree n env h0) (wads_of env h0 es))) t t' \<and>
        same_world env h0 (objs t')"
proof (induction es arbitrary: t ks N)
  case Nil
  then show ?case by (simp add: adds_refl)
next
  case (Cons e es)
  let ?sd = "addArchive_detect env e t"
  note d = addArchive_detect_state[OF stable Cons.prems(1), of e]
  from d have Rd: "open_archives ?sd = open_archives t" and ad: "adds [] t ?sd"
    and wd: "same_world env h0 (objs ?sd)"
    and ty: "(e_type (objs ?sd) e = Some ''wad'') = sniffs_wad env h0 e"
    by simp_all
  from Cons.prems(4) have own: "e_parent h0 e = Some x"
    and owns: "\<forall>e \<in> set es. e_parent h0 e = Some x" by simp_all
  show ?case
  proof (cases "sniffs_wad env h0 e")
    case False
    then have w: "wads_of env h0 (e # es) = wads_of env h0 es" by simp
    from False ty have step: "addArchive_entries n env (e # es) t = addArchive_entries n env es ?sd"
      by simp
    from Cons.IH[of ?sd ks N, OF wd _ Cons.prems(3) owns] Cons.prems(2,5,6,7)
    obtain t' where t': "addArchive_entries n env es ?sd = Inr t'"
      "open_archives t' =
          R0 @ \<lparr>archive = x, resource = True, open_children = ks @ wads_of env h0 es\<rparr> # N @
            map (record_of env h0) (concat (map (subtree n env h0) (wads_of env h0 es)))"
      "adds (concat (map (subtree n env h0) (wads_of env h0 es))) ?sd t'"
      "same_world env h0 (objs t')"
      unfolding w Rd by blast
    from adds_trans[OF ad t'(3)] have "adds (concat (map (subtree n env h0) (wads_of env h0 es))) t t'"
      by simp
    with t' step show ?thesis unfolding w by simp
  next
    case True
    with ty have ty': "e_type (objs ?sd) e = Some ''wad''" by simp
    show ?thesis
    proof (cases "opens env h0 e")
      case None
      with True have w: "wads_of env h0 (e # es) = wads_of env h0 es" by simp
      from entry_fail_step[OF wok wd None, of n] obtain t1 where
        t1: "openArchive_entry n env (Some e) True True ?sd = Inr (None, t1)"
        "open_archives t1 = open_archives ?sd" "adds [] ?sd t1" "objs t1 = objs ?sd"
        by blast
      have step: "addArchive_entries n env (e # es) t = addArchive_entries n env es t1"
        unfolding addArchive_entries.simps if_P[OF ty'] t1(1) by simp
      from wd t1(4) have w1: "same_world env h0 (objs t1)" by simp
      from Cons.IH[of t1 ks N, OF w1 _ Cons.prems(3) owns] Cons.prems(2,5,6,7)
      obtain t' where t': "addArchive_entries n env es t1 = Inr t'"
        "open_archives t' =
          R0 @ \<lparr>archive = x, resource = True, open_children = ks @ wads_of env h0 es\<rparr> # N @
            map (record_of env h0) (concat (map (subtree n env h0) (wads_of env h0 es)))"
        "adds (concat (map (subtree n env h0) (wads_of env h0 es))) t1 t'"
        "same_world env h0 (objs t')"
        unfolding w t1(2) Rd by blast
      from adds_trans[OF adds_trans[OF ad t1(3)] t'(3)]
      have "adds (concat (map (subtree n env h0) (wads_of env h0 es))) t t'" by simp
      with t' step show ?thesis unfolding w by simp
    next
      case (Some c)
      let ?cs = "wads_of env h0 es"
      let ?T = "concat (map (subtree n env h0) ?cs)" and ?S = "subtree n env h0 c"
      let ?M = "map (record_of env h0) ?S"
      from True Some have w: "wads_of env h0 (e # es) = c # ?cs" by simp
      from Cons.prems(5) have nc: "nested n env h0 c" and ncs: "\<forall>c \<in> set ?cs. nested n env h0 c"
        unfolding w by simp_all
      from Cons.prems(6) have dS: "distinct ?S" and dT: "distinct ?T" and ST: "set ?S \<inter> set ?T = {}"
        unfolding w by simp_all
      from Cons.prems(7) have fS: "set ?S \<inter> archive ` set (open_archives t) = {}"
        and fT: "set ?T \<inter> archive ` set (open_archives t) = {}"
        unfolding w by auto
      from fS subtree_mem[of c n env h0] have fresh: "c \<notin> archive ` set (open_archives ?sd)"
        unfolding Rd by blast
      have ar: "archive ` set (R0 @ \<lparr>archive = x, resource = True, open_children = ks @ [c]\<rparr> # N) =
          archive ` set (open_archives t)"
        unfolding Cons.prems(2) by simp
      have IHc: "\<And>u. same_world env h0 (objs u) \<Longrightarrow>
          open_archives u = R0 @ \<lparr>archive = x, resource = True, open_children = ks @ [c]\<rparr> # N \<Longrightarrow>
          listening u = listening ?sd \<Longrightarrow> announced u = announced ?sd \<Longrightarrow>
          resources_calls u = resources_calls ?sd \<Longrightarrow> bookmarks u = bookmarks ?sd \<Longrightarrow>
          archive_file u = archive_file ?sd \<Longrightarrow>
          \<exists>u'. addArchive n env (Some c) u = Inr (True, u') \<and>
             open_archives u' = open_archives u @ ?M \<and> adds ?S u u' \<and> same_world env h0 (objs u')"
      proof -
        fix u :: State assume u: "same_world env h0 (objs u)"
          "open_archives u = R0 @ \<lparr>archive = x, resource = True, open_children = ks @ [c]\<rparr> # N"
        from fS have "set ?S \<inter> archive ` set (open_archives u) = {}"
          unfolding u(2) ar .
        from IH[OF u(1) nc dS this]
        show "\<exists>u'. addArchive n env (Some c) u = Inr (True, u') \<and>
             open_archives u' = open_archives u @ ?M \<and> adds ?S u u' \<and> same_world env h0 (objs u')" .
      qed
      from entry_open_step[OF stable wok wd Cons.prems(2)[folded Rd] Cons.prems(3) own Some fresh IHc]
      obtain t1 where
        t1: "openArchive_entry n env (Some e) True True ?sd = Inr (Some c, t1)"
        "open_archives t1 =
           R0 @ \<lparr>archive = x, resource = True, open_children = ks @ [c]\<rparr> # N @ ?M"
        "adds ?S ?sd t1" "same_world env h0 (objs t1)"
        by blast
      have step: "addArchive_entries n env (e # es) t = addArchive_entries n env es t1"
        unfolding addArchive_entries.simps if_P[OF ty'] t1(1) by simp
      have f1: "set ?T \<inter> archive ` set (open_archives t1) = {}"
      proof -
        have "archive ` set (open_archives t1) = archive ` set (open_archives t) \<union> set ?S"
          unfolding t1(2) Cons.prems(2) by (simp add: image_Un Un_assoc)
        with fT ST show ?thesis by blast
      qed
      from Cons.IH[of t1 "ks @ [c]" "N @ ?M", OF t1(4) t1(2) Cons.prems(3) owns ncs dT f1]
      obtain t' where t': "addArchive_entries n env es t1 = Inr t'"
        "open_archives t' =
          R0 @ \<lparr>archive = x, resource = True, open_children = (ks @ [c]) @ ?cs\<rparr> # (N @ ?M) @
            map (record_of env h0) ?T"
        "adds ?T t1 t'" "same_world env h0 (objs t')"
        by blast
      from adds_trans[OF adds_trans[OF ad t1(3)] t'(3)] have a: "adds (?S @ ?T) t t'" by simp
      from t'(2) have r: "open_archives t' =
          R0 @ \<lparr>archive = x, resource = True, open_children = ks @ c # ?cs\<rparr> # N @
            map (record_of env h0) (?S @ ?T)" by simp
      from step t'(1) r a t'(4) show ?thesis unfolding w by simp
    qed
  qed
qed

lemma open_tree:
  assumes stable: "stable_world env h0" and wok: "world_ok env h0"
  shows "same_world env h0 (objs t) \<Longrightarrow> nested n env h0 x \<Longrightarrow>
     distinct (subtree n env h0 x) \<Longrightarrow>
     set (subtree n env h0 x) \<inter> archive ` set (open_archives t) = {} \<Longrightarrow>
     \<exists>t'. addArchive n env (Some x) t = Inr (True, t') \<and>
        open_archives t' = open_archives t @ map (record_of env h0) (subtree n env h0 x) \<and>
        adds (subtree n env h0 x) t t' \<and> same_world env h0 (objs t')"
proof (induction n arbitrary: x t)
  case 0
  then show ?case by simp
next
  case (Suc n)
  note r = addArchive_register_state[of x t]
  let ?t1 = "addArchive_register x t"
  from Suc.prems(1) have fmt: "a_formatId (objs t) = a_formatId h0"
    and ents: "a_allEntries (objs t) = a_allEntries h0" by (simp_all add: same_world_def)
  have ex: "((a_formatId (objs t) x = ''zip'' \<or> a_formatId (objs t) x = ''folder'') \<and>
      auto_open_wads_root env) = expands env h0 x"
    by (simp add: expands_def fmt)
  show ?case
  proof (cases "expands env h0 x")
    case False
    then have k: "wad_kids env h0 x = []" by (simp add: wad_kids_def)
    from False ex have c: "\<not> ((a_formatId (objs t) x = ''zip'' \<or> a_formatId (objs t) x = ''folder'') \<and>
      auto_open_wads_root env)" by simp
    have "addArchive (Suc n) env (Some x) t = Inr (True, ?t1)"
      unfolding addArchive.simps if_not_P[OF c] ..
    moreover have "open_archives ?t1 = open_archives t @ map (record_of env h0) (subtree (Suc n) env h0 x)"
      using r by (simp add: k record_of_def)
    moreover have "adds (subtree (Suc n) env h0 x) t ?t1" using r by (simp add: k)
    moreover have "same_world env h0 (objs ?t1)" using r Suc.prems(1) by simp
    ultimately show ?thesis by blast
  next
    case True
    let ?es = "a_allEntries h0 x"
    from True have k: "wad_kids env h0 x = wads_of env h0 ?es" by (simp add: wad_kids_def)
    let ?T = "concat (map (subtree n env h0) (wads_of env h0 ?es))"
    from Suc.prems(2) have nk: "\<forall>c \<in> set (wads_of env h0 ?es). nested n env h0 c"
      by (simp add: k)
    from Suc.prems(3) have dT: "distinct ?T" and xT: "x \<notin> set ?T" by (simp_all add: k)
    from Suc.prems(4) have xR: "x \<notin> archive ` set (open_archives t)"
      and fT: "set ?T \<inter> archive ` set (open_archives t) = {}" by (auto simp: k)
    have R1: "open_archives ?t1 =
        open_archives t @ \<lparr>archive = x, resource = True, open_children = []\<rparr> # []"
      using r by simp
    have w1: "same_world env h0 (objs ?t1)" using r Suc.prems(1) by simp
    from wok have owns: "\<forall>e \<in> set ?es. e_parent h0 e = Some x" by (simp add: world_ok_def)
    have f1: "set ?T \<inter> archive ` set (open_archives ?t1) = {}"
      unfolding R1 using fT xT by auto
    from entries_loop[OF stable wok Suc.IH, of ?t1 "open_archives t" x "[]" "[]" ?es,
        OF _ _ _ _ w1 R1 xR owns nk dT f1]
    obtain t' where t': "addArchive_entries n env ?es ?t1 = Inr t'"
      "open_archives t' =
          open_archives t @ \<lparr>archive = x, resource = True,
              open_children = [] @ wads_of env h0 ?es\<rparr> # [] @ map (record_of env h0) ?T"
      "adds ?T ?t1 t'" "same_world env h0 (objs t')"
      by blast
    from True ex have c: "(a_formatId (objs t) x = ''zip'' \<or> a_formatId (objs t) x = ''folder'') \<and>
      auto_open_wads_root env" by simp
    have "addArchive (Suc n) env (Some x) t = Inr (True, t')"
      unfolding addArchive.simps if_P[OF c] ents t'(1) by simp
    moreover from t'(2) have "open_archives t' =
        open_archives t @ map (record_of env h0) (subtree (Suc n) env h0 x)"
      by (simp add: k record_of_def)
    moreover from adds_trans[of "[x]" t ?t1 ?T t'] r t'(3)
    have "adds (subtree (Suc n) env h0 x) t t'" by (simp add: k)
    ultimately show ?thesis using t'(4) by blast
  qed
qed

lemma follow_from_append:
  "follow_from seen (A @ B) = (follow_from seen A \<and> follow_from (seen \<union> archive ` set A) B)"
proof (induction A arbitrary: seen)
  case Nil
  show ?case by simp
next
  case (Cons r A)
  have "insert (archive r) seen \<union> archive ` set A = seen \<union> archive ` set (r # A)" by auto
  with Cons[of "insert (archive r) seen"] show ?case by simp
qed

lemma distinct_concat_heads:
  "distinct (concat (map f cs)) \<Longrightarrow> \<forall>c \<in> set cs. c \<in> set (f c) \<Longrightarrow> distinct cs"
proof (induction cs)
  case Nil
  show ?case by simp
next
  case (Cons c cs)
  from Cons.prems have d: "distinct (concat (map f cs))" and h: "\<forall>c \<in> set cs. c \<in> set (f c)"
    and dj: "set (f c) \<inter> set (concat (map f cs)) = {}" and c: "c \<in> set (f c)" by simp_all
  have "c \<notin> set cs"
  proof
    assume "c \<in> set cs"
    with c have "c \<in> set (concat (map f cs))" by auto
    with c dj show False by blast
  qed
  with Cons.IH[OF d h] show ?case by simp
qed

lemma wads_of_opened:
  "c \<in> set (wads_of env h es) \<Longrightarrow> \<exists>e \<in> set es. opens env h e = Some c"
  by (induction es) (auto split: if_splits option.splits)

lemma subtree_kids:
  "nested n env h x \<Longrightarrow> distinct (subtree n env h x) \<Longrightarrow> y \<in> set (subtree n env h x) \<Longrightarrow>
   distinct (wad_kids env h y) \<and> set (wad_kids env h y) \<subseteq> set (subtree n env h x)"
proof (induction n arbitrary: x)
  case 0
  then show ?case by simp
next
  case (Suc n)
  let ?ks = "wad_kids env h x"
  from Suc.prems(2) have dT: "distinct (concat (map (subtree n env h) ?ks))" by simp
  have heads: "\<forall>c \<in> set ?ks. c \<in> set (subtree n env h c)" by (simp add: subtree_mem)
  show ?case
  proof (cases "y = x")
    case True
    from distinct_concat_heads[OF dT heads] have "distinct ?ks" .
    moreover have "set ?ks \<subseteq> set (subtree (Suc n) env h x)"
      using heads by auto
    ultimately show ?thesis using True by simp
  next
    case False
    with Suc.prems(3) obtain c where c: "c \<in> set ?ks" "y \<in> set (subtree n env h c)" by auto
    from Suc.prems(1) c(1) have nc: "nested n env h c" by simp
    from dT c(1) have dc: "distinct (subtree n env h c)"
      by (auto simp: distinct_concat_iff)
    from Suc.IH[OF nc dc c(2)] c(1) show ?thesis by auto
  qed
qed

lemma tree_follow:
  "nested n env h x \<Longrightarrow> distinct (subtree n env h x) \<Longrightarrow> set (subtree n env h x) \<inter> seen = {} \<Longrightarrow>
   follow_from seen (map (record_of env h) (subtree n env h x))"
proof (induction n arbitrary: x seen)
  case 0
  then show ?case by simp
next
  case (Suc n)
  let ?ks = "wad_kids env h x"
  let ?T = "\<lambda>cs. concat (map (subtree n env h) cs)"
  have heads: "\<forall>c \<in> set ?ks. c \<in> set (subtree n env h c)" by (simp add: subtree_mem)
  from Suc.prems(2) have xT: "x \<notin> set (?T ?ks)" and dT: "distinct (?T ?ks)" by simp_all
  from Suc.prems(3) have xs: "x \<notin> seen" and Ts: "set (?T ?ks) \<inter> seen = {}" by auto
  have first: "set ?ks \<inter> insert x seen = {}"
  proof -
    from heads have "set ?ks \<subseteq> set (?T ?ks)" by auto
    with xT Ts show ?thesis by auto
  qed
  have rest: "\<And>cs seen'. set cs \<subseteq> set ?ks \<Longrightarrow> distinct (?T cs) \<Longrightarrow> set (?T cs) \<inter> seen' = {} \<Longrightarrow>
      follow_from seen' (map (record_of env h) (?T cs))"
  proof -
    fix cs seen'
    show "set cs \<subseteq> set ?ks \<Longrightarrow> distinct (?T cs) \<Longrightarrow> set (?T cs) \<inter> seen' = {} \<Longrightarrow>
      follow_from seen' (map (record_of env h) (?T cs))"
    proof (induction cs arbitrary: seen')
      case Nil
      show ?case by simp
    next
      case (Cons c cs)
      from Cons.prems(1) Suc.prems(1) have nc: "nested n env h c" by simp
      from Cons.prems(2) have dc: "distinct (subtree n env h c)" and dr: "distinct (?T cs)"
        and dj: "set (subtree n env h c) \<inter> set (?T cs) = {}" by simp_all
      from Cons.prems(3) have sc: "set (subtree n env h c) \<inter> seen' = {}"
        and sr: "set (?T cs) \<inter> seen' = {}" by auto
      have "follow_from seen' (map (record_of env h) (subtree n env h c))"
        by (rule Suc.IH[OF nc dc sc])
      moreover have "follow_from (seen' \<union> set (subtree n env h c)) (map (record_of env h) (?T cs))"
        using Cons.prems(1) dr dj sr by (intro Cons.IH) auto
      ultimately show ?case by (simp add: follow_from_append)
    qed
  qed
  from rest[of ?ks "insert x seen"] dT xT Ts
  have "follow_from (insert x seen) (map (record_of env h) (?T ?ks))" by auto
  moreover have "archive (record_of env h x) = x" "open_children (record_of env h x) = ?ks"
    by (simp_all add: record_of_def)
  ultimately show ?case using first by simp
qed

lemma tree_registry_ok:
  assumes wok: "world_ok env h" and ok: "registry_ok (s\<lparr>objs := h\<rparr>)"
    and nest: "nested n env h a" and dist: "distinct (subtree n env h a)"
    and fresh: "set (subtree n env h a) \<inter> registered s = {}"
    and R: "open_archives u = open_archives s @ map (record_of env h) (subtree n env h a)"
    and same: "same_world env h (objs u)"
  shows "registry_ok u"
proof -
  let ?R = "open_archives s" and ?T = "subtree n env h a"
  from ok have d: "distinct (map archive ?R)" and cf: "children_follow ?R"
    and lc: "links_consistent h ?R" by (simp_all add: registry_ok_def)
  from same have pe: "a_parentEntry (objs u) = a_parentEntry h" and ep: "e_parent (objs u) = e_parent h"
    by (simp_all add: same_world_def)
  from fresh have fr: "set ?T \<inter> archive ` set ?R = {}" by (simp add: registered_def)
  have "map archive (open_archives u) = map archive ?R @ ?T"
    unfolding R by (simp only: map_append archives_of_records)
  then have d': "distinct (map archive (open_archives u))"
    using d dist fr by auto
  have "follow_from {} (?R @ map (record_of env h) ?T)"
    unfolding follow_from_append
    using d cf tree_follow[OF nest dist, of "archive ` set ?R"] fr
    by (simp add: children_follow_iff)
  with d' have cf': "children_follow (open_archives u)"
    by (simp add: children_follow_iff R)
  have lc': "links_consistent (objs u) (open_archives u)"
    unfolding links_consistent_def pe ep
  proof (intro ballI conjI)
    fix r assume r: "r \<in> set (open_archives u)"
    then consider "r \<in> set ?R" | y where "y \<in> set ?T" "r = record_of env h y"
      unfolding R by auto
    then have "distinct (open_children r) \<and>
        (\<forall>c \<in> set (open_children r). \<exists>e. a_parentEntry h c = Some e \<and> e_parent h e = Some (archive r))"
    proof cases
      case 1
      with lc show ?thesis unfolding links_consistent_def by blast
    next
      case 2
      from subtree_kids[OF nest dist 2(1)] have dk: "distinct (wad_kids env h y)" by simp
      have "\<forall>c \<in> set (wad_kids env h y). \<exists>e. a_parentEntry h c = Some e \<and> e_parent h e = Some y"
      proof
        fix c assume "c \<in> set (wad_kids env h y)"
        then have "c \<in> set (wads_of env h (a_allEntries h y))"
          by (simp add: wad_kids_def split: if_splits)
        from wads_of_opened[OF this] obtain e where e: "e \<in> set (a_allEntries h y)"
          "opens env h e = Some c" by blast
        with wok have "a_parentEntry h c = Some e" "e_parent h e = Some y"
          by (simp_all add: world_ok_def)
        then show "\<exists>e. a_parentEntry h c = Some e \<and> e_parent h e = Some y" by blast
      qed
      with dk 2(2) show ?thesis by (simp add: record_of_def)
    qed
    then show "distinct (open_children r)"
      and "\<And>c. c \<in> set (open_children r) \<Longrightarrow>
        \<exists>e. a_parentEntry h c = Some e \<and> e_parent h e = Some (archive r)" by blast+
  qed
  from d' cf' lc' show ?thesis by (simp add: registry_ok_def)
qed

lemma tree_reach_sub:
  assumes nest: "nested n env h a" and dist: "distinct (subtree n env h a)"
    and fr: "set (subtree n env h a) \<inter> archive ` set R = {}"
  shows "x \<in> reach (R @ map (record_of env h) (subtree n env h a)) a \<Longrightarrow>
     x \<in> set (subtree n env h a)"
proof (induction rule: reach.induct)
  case reach_root
  show ?case by (rule subtree_mem)
next
  case (reach_child x r c)
  from reach_child(2) consider "r \<in> set R"
    | y where "y \<in> set (subtree n env h a)" "r = record_of env h y" by auto
  then show ?case
  proof cases
    case 1
    with reach_child(3) have "x \<in> archive ` set R" by (metis imageI)
    with reach_child(6) fr show ?thesis by blast
  next
    case 2
    with reach_child(3,4) have "c \<in> set (wad_kids env h y)" by (simp add: record_of_def)
    with subtree_kids[OF nest dist 2(1)] show ?thesis by blast
  qed
qed

lemma tree_reach_sup:
  "nested n env h x \<Longrightarrow> set (map (record_of env h) (subtree n env h x)) \<subseteq> set R' \<Longrightarrow>
   y \<in> set (subtree n env h x) \<Longrightarrow> y \<in> reach R' x"
proof (induction n arbitrary: x y)
  case 0
  then show ?case by simp
next
  case (Suc n)
  show ?case
  proof (cases "y = x")
    case True
    then show ?thesis by (simp add: reach.reach_root)
  next
    case False
    with Suc.prems(3) obtain c where c: "c \<in> set (wad_kids env h x)"
      "y \<in> set (subtree n env h c)" by auto
    from Suc.prems(1) c(1) have nc: "nested n env h c" by simp
    from Suc.prems(2) c(1) have sub: "set (map (record_of env h) (subtree n env h c)) \<subseteq> set R'"
      by auto
    from Suc.prems(2) have rx: "record_of env h x \<in> set R'" by simp
    from sub subtree_mem[of c n env h] have "record_of env h c \<in> set R'" by auto
    then have "archive (record_of env h c) \<in> archive ` set R'" by (rule imageI)
    then have cr: "c \<in> archive ` set R'" by (simp add: record_of_def)
    have "c \<in> reach R' x"
      by (rule reach.reach_child[OF reach.reach_root rx _ _ cr]) (simp_all add: record_of_def c(1))
    moreover from Suc.IH[OF nc sub c(2)] have "y \<in> reach R' c" .
    ultimately show ?thesis by (rule reach_trans)
  qed
qed

lemma registry_without_append:
  "registry_without X (A @ B) = registry_without X A @ registry_without X B"
  by (simp add: registry_without_def)

lemma close_tree:
  assumes frame: "close_frame env" and wok: "world_ok env h"
    and ok: "registry_ok (s\<lparr>objs := h\<rparr>)"
    and nest: "nested n env h a" and dist: "distinct (subtree n env h a)"
    and fresh: "set (subtree n env h a) \<inter> registered s = {}"
    and unlisted: "\<forall>r \<in> set (open_archives s). set (open_children r) \<inter> set (subtree n env h a) = {}"
    and R: "open_archives u = open_archives s @ map (record_of env h) (subtree n env h a)"
    and same: "same_world env h (objs u)"
    and fuel: "length (subtree n env h a) \<le> m"
  shows "registry_ok u \<and>
     (\<exists>u'. closeArchive m env (int (length (open_archives s))) u = Inr (True, u') \<and>
        open_archives u' = open_archives s)"
proof -
  let ?R = "open_archives s" and ?T = "subtree n env h a"
  let ?M = "map (record_of env h) ?T"
  have oku: "registry_ok u" by (rule tree_registry_ok[OF wok ok nest dist fresh R same])
  from fresh have fr: "set ?T \<inter> archive ` set ?R = {}" by (simp add: registered_def)
  have T: "?T = a # tl ?T" by (rule subtree_head)
  have len: "0 < length ?T" by (subst T) simp
  have i: "(0::int) \<le> int (length ?R)" "nat (int (length ?R)) < length (open_archives u)"
    "length (open_archives u) - nat (int (length ?R)) \<le> m"
    using fuel len by (simp_all add: R)
  have "open_archives u ! length ?R = ?M ! 0" unfolding R by (simp add: nth_append)
  also have "\<dots> = record_of env h a" by (subst T) simp
  finally have at: "archive (open_archives u ! nat (int (length ?R))) = a"
    by (simp add: record_of_def)
  from closeArchive_exact[OF frame oku i] at obtain u' where
    u': "closeArchive m env (int (length ?R)) u = Inr (True, u')"
    "closed_rel (reach (open_archives u) a) u u'" by auto
  have D: "reach (open_archives u) a = set ?T"
  proof (intro equalityI subsetI)
    fix x assume "x \<in> reach (open_archives u) a"
    then show "x \<in> set ?T" unfolding R by (rule tree_reach_sub[OF nest dist fr])
  next
    fix x assume "x \<in> set ?T"
    then show "x \<in> reach (open_archives u) a"
      by (intro tree_reach_sup[OF nest]) (simp_all add: R)
  qed
  have old: "registry_without (set ?T) ?R = ?R"
  proof -
    have "filter (\<lambda>r. archive r \<notin> set ?T) ?R = ?R"
      using fr by (intro filter_True) (metis disjoint_iff imageI)
    moreover have "map (drop_children (set ?T)) ?R = ?R"
      using unlisted by (intro map_idI drop_children_id) simp
    ultimately show ?thesis by (simp add: registry_without_def)
  qed
  have new: "registry_without (set ?T) ?M = []"
    by (simp add: registry_without_def filter_empty_conv record_of_def)
  from u'(2) have "open_archives u' = registry_without (reach (open_archives u) a) (open_archives u)"
    by (simp add: closed_rel_def)
  then have "open_archives u' = registry_without (set ?T) (?R @ ?M)"
    unfolding D unfolding R .
  then have "open_archives u' = ?R"
    by (simp only: registry_without_append old new append_Nil2)
  with oku u'(1) show ?thesis by blast
qed

lemma openArchive_new:
  assumes none: "getArchive s p = None"
    and route: "if dirExists env p then f = Dir else detect_file env p = Some f"
    and opn: "openFile env f p (objs s) = Some (a, h)"
    and add: "addArchive n env (Some a) (s\<lparr>objs := h\<rparr>) = Inr (True, s1)"
  shows "openArchive n env p True silent s =
     Inr (Some a, announce_opened silent a (addOrUpdateArchiveDB env p a s1))"
proof (cases "dirExists env p")
  case True
  with route opn have "openFile env Dir p (objs s) = Some (a, h)" by simp
  with True none add show ?thesis
    by (simp add: openArchive_def openDirArchive_def)
next
  case False
  with route have "detect_file env p = Some f" by simp
  with False none opn add show ?thesis
    by (simp add: openArchive_def)
qed

text \<open>
  Claim C7 (automatic expansion). Let the codecs and the sniffer keep the object store's
  description of the archives and entries (\<open>stable_world\<close>, \<open>world_ok\<close>), and let \<open>T\<close> be the
  archive \<open>a\<close> followed, recursively, by the archives that the wad entries of a zip or
  folder archive open as when the toggle is on (\<open>subtree\<close>; the nesting is at most \<open>n\<close>
  deep, and none of \<open>T\<close> is registered or listed yet). Then \<^verbatim>\<open>addArchive\<close> of \<open>a\<close> returns
  true and appends one record for every archive of \<open>T\<close>, in that order: each a
  resource whose children are the archives opened from its own wad entries, so every
  entry of \<open>a\<close> whose sniffed type is wad and that opens is a managed child linked to \<open>a\<close>,
  and the same holds again inside each child. Each archive is listened to, announced
  as added and given to the Resource Index, and nothing else is announced: the children
  are opened silently. The registry keeps its shape, and closing \<open>a\<close> at its position
  afterwards returns true and removes all the records again. The same holds when \<open>a\<close>
  is opened through \<^verbatim>\<open>openArchive\<close> from a file or from a directory (which goes through
  \<^verbatim>\<open>openDirArchive\<close>): only \<open>a\<close> itself is announced as opened, unless the call is silent.
\<close>

theorem auto_expand_opens_wads:
  assumes world: "stable_world env h" "world_ok env h"
    and depth: "nested n env h a"
    and tree: "T = subtree n env h a"
    and fresh: "distinct T" "set T \<inter> registered s = {}"
      "\<forall>r \<in> set (open_archives s). set (open_children r) \<inter> set T = {}"
    and ok: "registry_ok (s\<lparr>objs := h\<rparr>)" and frame: "close_frame env"
    and fuel: "length T \<le> m"
  shows "\<exists>s1. addArchive n env (Some a) (s\<lparr>objs := h\<rparr>) = Inr (True, s1) \<and>
      open_archives s1 = open_archives s @ map (record_of env h) T \<and>
      adds T s s1 \<and> same_world env h (objs s1) \<and> registry_ok s1 \<and>
      (\<exists>s2. closeArchive m env (int (length (open_archives s))) s1 = Inr (True, s2) \<and>
            open_archives s2 = open_archives s) \<and>
      (\<forall>p f silent.
         getArchive s p = None \<and>
         (if dirExists env p then f = Dir else detect_file env p = Some f) \<and>
         openFile env f p (objs s) = Some (a, h) \<longrightarrow>
         (\<exists>s3 s4. openArchive n env p True silent s = Inr (Some a, s3) \<and>
            open_archives s3 = open_archives s1 \<and> listening s3 = listening s1 \<and>
            resources_calls s3 = resources_calls s1 \<and>
            announced s3 = announced s1 @
              (if silent then []
               else [(''archive_opened'', Some (word_of_int (int (length (open_archives s)))))]) \<and>
            registry_ok s3 \<and>
            closeArchive m env (int (length (open_archives s))) s3 = Inr (True, s4) \<and>
            open_archives s4 = open_archives s))"
proof -
  let ?s = "s\<lparr>objs := h\<rparr>" and ?R = "open_archives s"
  have fr: "set (subtree n env h a) \<inter> archive ` set (open_archives ?s) = {}"
    using fresh(2) by (simp add: tree registered_def)
  from open_tree[OF world, of ?s n a] depth fresh(1) fr obtain s1 where
    s1: "addArchive n env (Some a) ?s = Inr (True, s1)"
    "open_archives s1 = open_archives ?s @ map (record_of env h) (subtree n env h a)"
    "adds (subtree n env h a) ?s s1" "same_world env h (objs s1)"
    by (auto simp: tree same_world_refl)
  from s1(2) have R1: "open_archives s1 = ?R @ map (record_of env h) (subtree n env h a)" by simp
  from s1(3) have a1: "adds T s s1" by (simp add: adds_def tree)
  note ct = close_tree[OF frame world(2) ok depth fresh(1)[unfolded tree] fresh(2)[unfolded tree]
      fresh(3)[unfolded tree] _ _ fuel[unfolded tree]]
  from ct[OF R1 s1(4)] obtain s2 where
    c1: "registry_ok s1" "closeArchive m env (int (length ?R)) s1 = Inr (True, s2)"
    "open_archives s2 = ?R" by blast
  have wrap: "\<forall>p f silent.
         getArchive s p = None \<and>
         (if dirExists env p then f = Dir else detect_file env p = Some f) \<and>
         openFile env f p (objs s) = Some (a, h) \<longrightarrow>
         (\<exists>s3 s4. openArchive n env p True silent s = Inr (Some a, s3) \<and>
            open_archives s3 = open_archives s1 \<and> listening s3 = listening s1 \<and>
            resources_calls s3 = resources_calls s1 \<and>
            announced s3 = announced s1 @
              (if silent then []
               else [(''archive_opened'', Some (word_of_int (int (length ?R))))]) \<and>
            registry_ok s3 \<and>
            closeArchive m env (int (length ?R)) s3 = Inr (True, s4) \<and>
            open_archives s4 = ?R)"
  proof (intro allI impI)
    fix p f silent
    assume pre: "getArchive s p = None \<and>
         (if dirExists env p then f = Dir else detect_file env p = Some f) \<and>
         openFile env f p (objs s) = Some (a, h)"
    let ?db = "addOrUpdateArchiveDB env p a s1"
    let ?s3 = "announce_opened silent a ?db"
    from pre s1(1) have res: "openArchive n env p True silent s = Inr (Some a, ?s3)"
      by (intro openArchive_new[of s p env f a h n s1 silent]) simp_all
    have db: "open_archives ?db = open_archives s1" "objs ?db = objs s1"
      "listening ?db = listening s1" "resources_calls ?db = resources_calls s1"
      "announced ?db = announced s1"
      by (simp_all add: addOrUpdateArchiveDB_def Let_def)
    have an: "a \<notin> archive ` set ?R"
      using fresh(2) subtree_mem[of a n env h] by (auto simp: tree registered_def)
    have "open_archives ?db = ?R @ record_of env h a # map (record_of env h) (tl (subtree n env h a))"
      unfolding db(1) R1 by (subst subtree_head[of n env h a]) simp
    from archiveIndex_append[OF an _ this] have ix: "archiveIndex ?db (Some a) = int (length ?R)"
      by (simp add: record_of_def)
    have f3: "open_archives ?s3 = open_archives s1" "objs ?s3 = objs s1"
      "listening ?s3 = listening s1" "resources_calls ?s3 = resources_calls s1"
      "announced ?s3 = announced s1 @
         (if silent then [] else [(''archive_opened'', Some (word_of_int (int (length ?R))))])"
      by (simp_all add: announce_opened_def announce_def db ix)
    from ct[of ?s3] f3(1,2) R1 s1(4) obtain s4 where
      "registry_ok ?s3" "closeArchive m env (int (length ?R)) ?s3 = Inr (True, s4)"
      "open_archives s4 = ?R" by auto
    with res f3 show "\<exists>s3 s4. openArchive n env p True silent s = Inr (Some a, s3) \<and>
            open_archives s3 = open_archives s1 \<and> listening s3 = listening s1 \<and>
            resources_calls s3 = resources_calls s1 \<and>
            announced s3 = announced s1 @
              (if silent then []
               else [(''archive_opened'', Some (word_of_int (int (length ?R))))]) \<and>
            registry_ok s3 \<and>
            closeArchive m env (int (length ?R)) s3 = Inr (True, s4) \<and>
            open_archives s4 = ?R" by blast
  qed
  from s1(1) R1 a1 s1(4) c1 wrap show ?thesis unfolding tree by blast
qed

text \<open>The second sample world satisfies what the theorem asks.\<close>

lemma sample_pk3_sniffs:
  "sniffs_wad sample_pk3_env sample_pk3 e = (e \<in> {21, 23, 24, 32, 51})"
  by (simp add: sniffs_wad_def sample_pk3_def sample_pk3_env_def)

lemma sample_pk3_detect:
  "detect_entry sample_pk3_env h e =
     (if e_data h e = [1] then Some Wad else if e_data h e = [2] then Some Zip else None)"
  by (simp add: detect_entry_def entry_formats_def sample_pk3_env_def sample_env_def)

lemma sample_pk3_data:
  "e_data sample_pk3 e = (if e \<in> {21, 32, 51} then [1] else if e = 23 then [2] else [0])"
  by (simp add: sample_pk3_def)

lemma sample_pk3_openEntry:
  "openEntry sample_pk3_env g e h =
     (if e = 21 then Some (2, h) else if e = 23 then Some (3, h)
      else if e = 32 then Some (4, h) else if e = 51 then Some (6, h) else None)"
  by (simp add: sample_pk3_env_def)

lemma sample_pk3_opens:
  "opens sample_pk3_env sample_pk3 e =
     (if e = 21 then Some 2 else if e = 23 then Some 3 else if e = 32 then Some 4
      else if e = 51 then Some 6 else None)"
  by (simp add: opens_def sample_pk3_detect sample_pk3_data sample_pk3_openEntry)

lemma sample_pk3_expands:
  "expands sample_pk3_env sample_pk3 x = (x = 1 \<or> x = 3 \<or> x = 5)"
  by (simp add: expands_def sample_pk3_def sample_pk3_env_def sample_env_def)

lemma sample_pk3_entries:
  "a_allEntries sample_pk3 x =
     (if x = 1 then [21, 22, 23, 24] else if x = 2 then [31]
      else if x = 3 then [32, 33] else if x = 5 then [51, 52] else [])"
  by (simp add: sample_pk3_def)

lemma sample_pk3_kids:
  "wad_kids sample_pk3_env sample_pk3 x =
     (if x = 1 then [2, 3] else if x = 3 then [4] else if x = 5 then [6] else [])"
  by (simp add: wad_kids_def sample_pk3_expands sample_pk3_entries sample_pk3_sniffs
      sample_pk3_opens)

lemma sample_pk3_world_ok: "world_ok sample_pk3_env sample_pk3"
proof -
  have own: "\<forall>x e. e \<in> set (a_allEntries sample_pk3 x) \<longrightarrow> e_parent sample_pk3 e = Some x"
    unfolding sample_pk3_entries by (simp add: sample_pk3_def)
  have pe: "\<forall>e y. (a_parentEntry sample_pk3 y = Some e) = (opens sample_pk3_env sample_pk3 e = Some y)"
    unfolding sample_pk3_opens by (auto simp: sample_pk3_def)
  from own pe show ?thesis by (simp add: world_ok_def)
qed

lemma sample_pk3_opens_any:
  "opens sample_pk3_env h e =
     (if e_data h e = [1] \<or> e_data h e = [2]
      then (if e = 21 then Some 2 else if e = 23 then Some 3 else if e = 32 then Some 4
            else if e = 51 then Some 6 else None)
      else None)"
  by (simp add: opens_def sample_pk3_detect sample_pk3_openEntry)

lemma sample_pk3_sniffs_any:
  "sniffs_wad sample_pk3_env h e =
     (if e_type h e = None then e = 23 else e_type h e = Some ''wad'')"
  by (simp add: sniffs_wad_def sample_pk3_env_def)

lemma sample_pk3_stable: "stable_world sample_pk3_env sample_pk3"
  unfolding stable_world_def
proof (intro allI impI conjI)
  fix h e assume w: "same_world sample_pk3_env sample_pk3 h" and n: "e_type h e = None"
  let ?h' = "detectEntryType sample_pk3_env e h"
  have h': "?h' = h\<lparr>e_type := (e_type h)(e := Some (if e = 23 then ''wad'' else ''text''))\<rparr>"
    by (simp add: sample_pk3_env_def)
  have "\<And>x. sniffs_wad sample_pk3_env ?h' x = sniffs_wad sample_pk3_env h x"
    unfolding h' sample_pk3_sniffs_any using n by auto
  moreover have "\<And>x. opens sample_pk3_env ?h' x = opens sample_pk3_env h x"
    unfolding h' sample_pk3_opens_any by simp
  ultimately show "same_world sample_pk3_env sample_pk3 ?h'"
    using w unfolding same_world_def h' by simp
next
  fix h g e c h' assume w: "same_world sample_pk3_env sample_pk3 h"
    and o: "openEntry sample_pk3_env g e h = Some (c, h')"
  from o have "h' = h" unfolding sample_pk3_openEntry by (simp split: if_splits)
  with w show "same_world sample_pk3_env sample_pk3 h'" by simp
qed

lemma sample_pk3_frame: "close_frame sample_pk3_env"
  by (simp add: close_frame_def sample_pk3_env_def sample_env_def)

lemma sample_pk3_registry_ok: "registry_ok (sample_pk3_state\<lparr>objs := sample_pk3\<rparr>)"
  by (simp add: registry_ok_def children_follow_def links_consistent_def sample_pk3_state_def)

theorem auto_expand_opens_wads_witness:
  "stable_world sample_pk3_env sample_pk3 \<and> world_ok sample_pk3_env sample_pk3 \<and>
   close_frame sample_pk3_env \<and> registry_ok sample_pk3_state \<and>
   auto_open_wads_root sample_pk3_env \<and>
   a_formatId sample_pk3 1 = ''zip'' \<and> a_formatId sample_pk3 5 = ''folder'' \<and>
   subtree 3 sample_pk3_env sample_pk3 1 = [1, 2, 3, 4] \<and>
   subtree 2 sample_pk3_env sample_pk3 5 = [5, 6] \<and>
   open_archives sample_pk3_state = [\<lparr>archive = 7, resource = False, open_children = []\<rparr>] \<and>
   (\<exists>s3 s4. openArchive 3 sample_pk3_env ''a.zip'' True False sample_pk3_state = Inr (Some 1, s3) \<and>
      open_archives s3 =
        [\<lparr>archive = 7, resource = False, open_children = []\<rparr>,
         \<lparr>archive = 1, resource = True, open_children = [2, 3]\<rparr>,
         \<lparr>archive = 2, resource = True, open_children = []\<rparr>,
         \<lparr>archive = 3, resource = True, open_children = [4]\<rparr>,
         \<lparr>archive = 4, resource = True, open_children = []\<rparr>] \<and>
      announced s3 =
        [(''archive_added'', None), (''archive_added'', None), (''archive_added'', None),
         (''archive_added'', None), (''archive_opened'', Some 1)] \<and>
      resources_calls s3 = [ResAddArchive 1, ResAddArchive 2, ResAddArchive 3, ResAddArchive 4] \<and>
      closeArchive 4 sample_pk3_env 1 s3 = Inr (True, s4) \<and>
      open_archives s4 = [\<lparr>archive = 7, resource = False, open_children = []\<rparr>]) \<and>
   (\<exists>s3 s4. openArchive 2 sample_pk3_env ''mods'' True True sample_pk3_state = Inr (Some 5, s3) \<and>
      open_archives s3 =
        [\<lparr>archive = 7, resource = False, open_children = []\<rparr>,
         \<lparr>archive = 5, resource = True, open_children = [6]\<rparr>,
         \<lparr>archive = 6, resource = True, open_children = []\<rparr>] \<and>
      announced s3 = [(''archive_added'', None), (''archive_added'', None)] \<and>
      closeArchive 2 sample_pk3_env 1 s3 = Inr (True, s4) \<and>
      open_archives s4 = [\<lparr>archive = 7, resource = False, open_children = []\<rparr>])"
proof -
  let ?env = sample_pk3_env and ?h = sample_pk3 and ?s = sample_pk3_state
  have three: "(3::nat) = Suc (Suc (Suc 0))" and two: "(2::nat) = Suc (Suc 0)" by simp_all
  have sh: "?s\<lparr>objs := ?h\<rparr> = ?s" and h: "objs ?s = ?h"
    and R: "open_archives ?s = [\<lparr>archive = 7, resource = False, open_children = []\<rparr>]"
    and A: "announced ?s = []" and C: "resources_calls ?s = []"
    by (simp_all add: sample_pk3_state_def)
  have ok: "registry_ok (?s\<lparr>objs := ?h\<rparr>)" by (rule sample_pk3_registry_ok)
  then have ok': "registry_ok ?s" by (simp only: sh)
  have tog: "auto_open_wads_root ?env" by (simp add: sample_pk3_env_def sample_env_def)
  have fmt: "a_formatId ?h 1 = ''zip''" "a_formatId ?h 5 = ''folder''"
    by (simp_all add: sample_pk3_def)
  have T1: "subtree 3 ?env ?h 1 = [1, 2, 3, 4]" and T5: "subtree 2 ?env ?h 5 = [5, 6]"
    unfolding three two by (simp_all add: sample_pk3_kids)
  have N1: "nested 3 ?env ?h 1" and N5: "nested 2 ?env ?h 5"
    unfolding three two by (simp_all add: sample_pk3_kids)
  have fresh1: "distinct [1, 2, 3, 4::nat]" "set [1, 2, 3, 4] \<inter> registered ?s = {}"
    "\<forall>r \<in> set (open_archives ?s). set (open_children r) \<inter> set [1, 2, 3, 4] = {}"
    and fresh5: "distinct [5, 6::nat]" "set [5, 6] \<inter> registered ?s = {}"
    "\<forall>r \<in> set (open_archives ?s). set (open_children r) \<inter> set [5, 6] = {}"
    and fuel: "length [1, 2, 3, 4::nat] \<le> 4" "length [5, 6::nat] \<le> 2"
    by (simp_all add: registered_def R)
  have zip: "getArchive ?s ''a.zip'' = None \<and>
      (if dirExists ?env ''a.zip'' then Zip = Dir else detect_file ?env ''a.zip'' = Some Zip) \<and>
      openFile ?env Zip ''a.zip'' (objs ?s) = Some (1, ?h)"
    by (simp add: getArchive_def R h detect_file_def file_formats_def sample_pk3_env_def
        sample_pk3_def)
  have dir: "getArchive ?s ''mods'' = None \<and>
      (if dirExists ?env ''mods'' then Dir = Dir else detect_file ?env ''mods'' = Some Dir) \<and>
      openFile ?env Dir ''mods'' (objs ?s) = Some (5, ?h)"
    by (simp add: getArchive_def R h sample_pk3_env_def sample_pk3_def)
  have rec1: "map (record_of ?env ?h) [1, 2, 3, 4] =
        [\<lparr>archive = 1, resource = True, open_children = [2, 3]\<rparr>,
         \<lparr>archive = 2, resource = True, open_children = []\<rparr>,
         \<lparr>archive = 3, resource = True, open_children = [4]\<rparr>,
         \<lparr>archive = 4, resource = True, open_children = []\<rparr>]"
    and rec5: "map (record_of ?env ?h) [5, 6] =
        [\<lparr>archive = 5, resource = True, open_children = [6]\<rparr>,
         \<lparr>archive = 6, resource = True, open_children = []\<rparr>]"
    by (simp_all add: record_of_def sample_pk3_kids)
  have one: "int (length (open_archives ?s)) = 1" by (simp add: R)
  from auto_expand_opens_wads[OF sample_pk3_stable sample_pk3_world_ok N1 T1[symmetric]
      fresh1 ok sample_pk3_frame fuel(1)]
  obtain s1 where s1: "open_archives s1 = open_archives ?s @ map (record_of ?env ?h) [1, 2, 3, 4]"
    "adds [1, 2, 3, 4] ?s s1"
    and w1: "\<forall>p f silent.
         getArchive ?s p = None \<and>
         (if dirExists ?env p then f = Dir else detect_file ?env p = Some f) \<and>
         openFile ?env f p (objs ?s) = Some (1, ?h) \<longrightarrow>
         (\<exists>s3 s4. openArchive 3 ?env p True silent ?s = Inr (Some 1, s3) \<and>
            open_archives s3 = open_archives s1 \<and> listening s3 = listening s1 \<and>
            resources_calls s3 = resources_calls s1 \<and>
            announced s3 = announced s1 @
              (if silent then []
               else [(''archive_opened'', Some (word_of_int (int (length (open_archives ?s)))))]) \<and>
            registry_ok s3 \<and>
            closeArchive 4 ?env (int (length (open_archives ?s))) s3 = Inr (True, s4) \<and>
            open_archives s4 = open_archives ?s)"
    by blast
  from w1 zip obtain s3 s4 where z: "openArchive 3 ?env ''a.zip'' True False ?s = Inr (Some 1, s3)"
    "open_archives s3 = open_archives s1" "resources_calls s3 = resources_calls s1"
    "announced s3 = announced s1 @
       (if False then []
        else [(''archive_opened'', Some (word_of_int (int (length (open_archives ?s)))))])"
    "closeArchive 4 ?env (int (length (open_archives ?s))) s3 = Inr (True, s4)"
    "open_archives s4 = open_archives ?s"
    by blast
  have zr: "\<exists>s3 s4. openArchive 3 ?env ''a.zip'' True False ?s = Inr (Some 1, s3) \<and>
      open_archives s3 =
        [\<lparr>archive = 7, resource = False, open_children = []\<rparr>,
         \<lparr>archive = 1, resource = True, open_children = [2, 3]\<rparr>,
         \<lparr>archive = 2, resource = True, open_children = []\<rparr>,
         \<lparr>archive = 3, resource = True, open_children = [4]\<rparr>,
         \<lparr>archive = 4, resource = True, open_children = []\<rparr>] \<and>
      announced s3 =
        [(''archive_added'', None), (''archive_added'', None), (''archive_added'', None),
         (''archive_added'', None), (''archive_opened'', Some 1)] \<and>
      resources_calls s3 = [ResAddArchive 1, ResAddArchive 2, ResAddArchive 3, ResAddArchive 4] \<and>
      closeArchive 4 ?env 1 s3 = Inr (True, s4) \<and>
      open_archives s4 = [\<lparr>archive = 7, resource = False, open_children = []\<rparr>]"
  proof -
    have "open_archives s3 =
        [\<lparr>archive = 7, resource = False, open_children = []\<rparr>,
         \<lparr>archive = 1, resource = True, open_children = [2, 3]\<rparr>,
         \<lparr>archive = 2, resource = True, open_children = []\<rparr>,
         \<lparr>archive = 3, resource = True, open_children = [4]\<rparr>,
         \<lparr>archive = 4, resource = True, open_children = []\<rparr>]"
      unfolding z(2) s1(1) rec1 R by simp
    moreover have "announced s3 =
        [(''archive_added'', None), (''archive_added'', None), (''archive_added'', None),
         (''archive_added'', None), (''archive_opened'', Some 1)]"
      unfolding z(4) one using s1(2) by (simp add: adds_def A)
    moreover have "resources_calls s3 =
        [ResAddArchive 1, ResAddArchive 2, ResAddArchive 3, ResAddArchive 4]"
      unfolding z(3) using s1(2) by (simp add: adds_def C)
    moreover have "closeArchive 4 ?env 1 s3 = Inr (True, s4)" using z(5) unfolding one .
    moreover have "open_archives s4 = [\<lparr>archive = 7, resource = False, open_children = []\<rparr>]"
      using z(6) unfolding R .
    ultimately show ?thesis using z(1) by blast
  qed
  from auto_expand_opens_wads[OF sample_pk3_stable sample_pk3_world_ok N5 T5[symmetric]
      fresh5 ok sample_pk3_frame fuel(2)]
  obtain t1 where t1: "open_archives t1 = open_archives ?s @ map (record_of ?env ?h) [5, 6]"
    "adds [5, 6] ?s t1"
    and w5: "\<forall>p f silent.
         getArchive ?s p = None \<and>
         (if dirExists ?env p then f = Dir else detect_file ?env p = Some f) \<and>
         openFile ?env f p (objs ?s) = Some (5, ?h) \<longrightarrow>
         (\<exists>s3 s4. openArchive 2 ?env p True silent ?s = Inr (Some 5, s3) \<and>
            open_archives s3 = open_archives t1 \<and> listening s3 = listening t1 \<and>
            resources_calls s3 = resources_calls t1 \<and>
            announced s3 = announced t1 @
              (if silent then []
               else [(''archive_opened'', Some (word_of_int (int (length (open_archives ?s)))))]) \<and>
            registry_ok s3 \<and>
            closeArchive 2 ?env (int (length (open_archives ?s))) s3 = Inr (True, s4) \<and>
            open_archives s4 = open_archives ?s)"
    by blast
  from w5 dir obtain u3 u4 where d: "openArchive 2 ?env ''mods'' True True ?s = Inr (Some 5, u3)"
    "open_archives u3 = open_archives t1"
    "announced u3 = announced t1 @
       (if True then []
        else [(''archive_opened'', Some (word_of_int (int (length (open_archives ?s)))))])"
    "closeArchive 2 ?env (int (length (open_archives ?s))) u3 = Inr (True, u4)"
    "open_archives u4 = open_archives ?s"
    by blast
  have dr: "\<exists>s3 s4. openArchive 2 ?env ''mods'' True True ?s = Inr (Some 5, s3) \<and>
      open_archives s3 =
        [\<lparr>archive = 7, resource = False, open_children = []\<rparr>,
         \<lparr>archive = 5, resource = True, open_children = [6]\<rparr>,
         \<lparr>archive = 6, resource = True, open_children = []\<rparr>] \<and>
      announced s3 = [(''archive_added'', None), (''archive_added'', None)] \<and>
      closeArchive 2 ?env 1 s3 = Inr (True, s4) \<and>
      open_archives s4 = [\<lparr>archive = 7, resource = False, open_children = []\<rparr>]"
  proof -
    have "open_archives u3 =
        [\<lparr>archive = 7, resource = False, open_children = []\<rparr>,
         \<lparr>archive = 5, resource = True, open_children = [6]\<rparr>,
         \<lparr>archive = 6, resource = True, open_children = []\<rparr>]"
      unfolding d(2) t1(1) rec5 R by simp
    moreover have "announced u3 = [(''archive_added'', None), (''archive_added'', None)]"
      unfolding d(3) using t1(2) by (simp add: adds_def A)
    moreover have "closeArchive 2 ?env 1 u3 = Inr (True, u4)" using d(4) unfolding one .
    moreover have "open_archives u4 = [\<lparr>archive = 7, resource = False, open_children = []\<rparr>]"
      using d(5) unfolding R .
    ultimately show ?thesis using d(1) by blast
  qed
  from sample_pk3_stable sample_pk3_world_ok sample_pk3_frame ok' tog fmt T1 T5 R zr dr
  show ?thesis by blast
qed

end
